theory Spec2Isabelle
  imports Main "HOL-Library.AList" "HOL-Library.Char_ord" "HOL-Library.List_Lexorder"
begin

section \<open>Python values shared by the models\<close>

text \<open>
  The exceptions the modelled code can raise. A function that may raise returns
  \<open>error + 'a\<close>, with \<open>Inl\<close> for the exception.
\<close>

datatype error = ValueError | KeyError | TypeError

text \<open>
  Python dictionaries keep insertion order, so a dictionary is an association list:
  \<open>map_of\<close> is the lookup, \<open>AList.update\<close> is item assignment (the value of an
  existing key is replaced in place, a new key goes to the end) and \<open>AList.delete\<close>
  is \<open>pop\<close>.
\<close>

definition keys :: "('k \<times> 'v) list \<Rightarrow> 'k set" where
  "keys d = fst ` set d"

text \<open>
  Python compares a string with a set by identity of type first: values of different
  types are never equal. \<open>py_ne\<close> is \<open>!=\<close> on the two kinds of value that
  \<open>update_step\<close> compares.
\<close>

datatype pyval = PyStr string | PySet "string set"

definition py_ne :: "pyval \<Rightarrow> pyval \<Rightarrow> bool" where
  "py_ne a b = (a \<noteq> b)"

section \<open>process\_graph.py: the directed process graph\<close>

type_synonym adjacency = "(string \<times> string set) list"

record process_graph =
  gname :: string
  adjacency :: adjacency

definition new_graph :: "string \<Rightarrow> process_graph" where
  "new_graph n = \<lparr>gname = n, adjacency = []\<rparr>"

definition steps :: "adjacency \<Rightarrow> string list" where
  "steps adj = map fst adj"

definition add_step :: "adjacency \<Rightarrow> string \<Rightarrow> adjacency" where
  "add_step adj step = (if step \<notin> keys adj then AList.update step {} adj else adj)"

definition remove_step :: "adjacency \<Rightarrow> string \<Rightarrow> adjacency" where
  "remove_step adj step =
     (if step \<in> keys adj
      then map (\<lambda>(k, neighbors). (k, neighbors - {step})) (AList.delete step adj)
      else adj)"

text \<open>
  \<open>self._adjacency[k]\<close> on the \<open>defaultdict(set)\<close>: a missing key is first
  inserted with an empty set.
\<close>

definition dd_get :: "adjacency \<Rightarrow> string \<Rightarrow> string set \<times> adjacency" where
  "dd_get adj k =
     (case map_of adj k of
        Some ns \<Rightarrow> (ns, adj)
      | None \<Rightarrow> ({}, AList.update k {} adj))"

text \<open>\<open>dict.pop(k)\<close> without a default raises \<open>KeyError\<close> on a missing key.\<close>

definition pop :: "string \<Rightarrow> adjacency \<Rightarrow> error + (string set \<times> adjacency)" where
  "pop k adj =
     (case map_of adj k of
        None \<Rightarrow> Inl KeyError
      | Some ns \<Rightarrow> Inr (ns, AList.delete k adj))"

text \<open>
  One round of the loop over \<open>self._adjacency.values()\<close> in \<open>update_step\<close>. The
  guard of the source is \<open>new_step != neighbors\<close>: it compares the step name with
  the successor set, after \<open>old_step\<close> has been discarded from it.
\<close>

definition repoint :: "string \<Rightarrow> string \<Rightarrow> string set \<Rightarrow> string set" where
  "repoint old_step new_step neighbors =
     (if old_step \<in> neighbors
      then (let discarded = neighbors - {old_step}
            in if py_ne (PyStr new_step) (PySet discarded)
               then insert new_step discarded else discarded)
      else neighbors)"

definition update_step :: "adjacency \<Rightarrow> string \<Rightarrow> string \<Rightarrow> error + adjacency" where
  "update_step adj old_step new_step =
     (if old_step = new_step \<or> old_step \<notin> keys adj then Inr adj
      else
        (case pop old_step (add_step adj new_step) of
           Inl e \<Rightarrow> Inl e
         | Inr (successors, adj2) \<Rightarrow>
             (let (current, adj3) = dd_get adj2 new_step;
                  adj4 = AList.update new_step (current \<union> (successors - {new_step})) adj3
              in Inr (map (\<lambda>(k, neighbors). (k, repoint old_step new_step neighbors)) adj4))))"

definition add_transition :: "adjacency \<Rightarrow> string \<Rightarrow> string \<Rightarrow> adjacency" where
  "add_transition adj start end =
     (let adj1 = add_step (add_step adj start) end;
          (current, adj2) = dd_get adj1 start
      in AList.update start (insert end current) adj2)"

definition remove_transition :: "adjacency \<Rightarrow> string \<Rightarrow> string \<Rightarrow> adjacency" where
  "remove_transition adj start end =
     (case map_of adj start of
        Some ns \<Rightarrow> AList.update start (ns - {end}) adj
      | None \<Rightarrow> adj)"

text \<open>\<open>self._adjacency.get(step, set())\<close>, before sorting.\<close>

definition succ_set :: "adjacency \<Rightarrow> string \<Rightarrow> string set" where
  "succ_set adj step = (case map_of adj step of Some ns \<Rightarrow> ns | None \<Rightarrow> {})"

definition successors :: "adjacency \<Rightarrow> string \<Rightarrow> string list" where
  "successors adj step = sorted_list_of_set (succ_set adj step)"

definition predecessors :: "adjacency \<Rightarrow> string \<Rightarrow> string list" where
  "predecessors adj step = sort (map fst (filter (\<lambda>(node, neighbors). step \<in> neighbors) adj))"

text \<open>The edges of a graph, and the renaming of a step in an edge.\<close>

definition edges :: "adjacency \<Rightarrow> (string \<times> string) set" where
  "edges adj = {(u, v). v \<in> succ_set adj u}"

definition rename :: "string \<Rightarrow> string \<Rightarrow> string \<Rightarrow> string" where
  "rename old_step new_step x = (if x = old_step then new_step else x)"

definition rename_edge :: "string \<Rightarrow> string \<Rightarrow> string \<times> string \<Rightarrow> string \<times> string" where
  "rename_edge old_step new_step e = (rename old_step new_step (fst e), rename old_step new_step (snd e))"

section \<open>object\_dict.py: the nested location dictionary\<close>

text \<open>
  A \<open>LocationValue\<close> is a nested dictionary or a terminal list of object names. The
  root \<open>self._data\<close> is always a dictionary. A path reaches the code either as one
  delimited string or as a sequence of keys.
\<close>

datatype node = Mapping "(string \<times> node) list" | Bucket "string list"

type_synonym path = "string list"

datatype path_arg = PStr string | PSeq "string list"

record object_dict =
  data :: "(string \<times> node) list"
  sep :: string

definition init :: "(string \<times> node) list option \<Rightarrow> string \<Rightarrow> error + object_dict" where
  "init initial path_separator =
     (if path_separator = [] then Inl ValueError
      else Inr \<lparr>data = (case initial of Some d \<Rightarrow> d | None \<Rightarrow> []), sep = path_separator\<rparr>)"

definition root :: "object_dict \<Rightarrow> node" where
  "root s = Mapping (data s)"

fun entries :: "node \<Rightarrow> (string \<times> node) list" where
  "entries (Mapping m) = m"
| "entries (Bucket b) = []"

definition set_root :: "node \<Rightarrow> object_dict \<Rightarrow> object_dict" where
  "set_root r s = s\<lparr>data := entries r\<rparr>"

definition as_dict :: "object_dict \<Rightarrow> (string \<times> node) list" where
  "as_dict s = data s"

definition clear :: "object_dict \<Rightarrow> object_dict" where
  "clear s = s\<lparr>data := []\<rparr>"

subsection \<open>Paths\<close>

text \<open>
  \<open>str.split(sep)\<close> for a non-empty separator: the string is cut at each
  occurrence of the separator, scanning from the left; \<open>acc\<close> is the piece being
  read. Python raises \<open>ValueError\<close> for an empty separator.
\<close>

function split_on :: "string \<Rightarrow> string \<Rightarrow> string \<Rightarrow> string list" where
  "split_on sp acc [] = [acc]"
| "split_on sp acc (c # cs) =
     (if sp \<noteq> [] \<and> take (length sp) (c # cs) = sp
      then acc # split_on sp [] (drop (length sp) (c # cs))
      else split_on sp (acc @ [c]) cs)"
  by pat_completeness auto
termination
  by (relation "measure (\<lambda>(sp, acc, s). length s)") auto

definition py_split :: "string \<Rightarrow> string \<Rightarrow> error + string list" where
  "py_split sp s = (if sp = [] then Inl ValueError else Inr (split_on sp [] s))"

definition normalize_path :: "string \<Rightarrow> path_arg \<Rightarrow> error + path" where
  "normalize_path sp p =
     (case p of
        PStr s \<Rightarrow>
          (case py_split sp s of
             Inl e \<Rightarrow> Inl e
           | Inr pieces \<Rightarrow>
               (let parts = filter (\<lambda>x. x \<noteq> []) pieces
                in if parts = [] then Inl ValueError else Inr parts))
      | PSeq xs \<Rightarrow> if xs = [] then Inl ValueError else Inr xs)"

fun walk :: "node \<Rightarrow> path \<Rightarrow> error + node" where
  "walk current [] = Inr current"
| "walk current (key # rest) =
     (case current of
        Bucket b \<Rightarrow> Inl KeyError
      | Mapping m \<Rightarrow>
          (case map_of m key of
             None \<Rightarrow> Inl KeyError
           | Some child \<Rightarrow> walk child rest))"

definition has_path :: "object_dict \<Rightarrow> path_arg \<Rightarrow> error + bool" where
  "has_path s p =
     (case normalize_path (sep s) p of
        Inl e \<Rightarrow> Inl e
      | Inr normalized \<Rightarrow>
          (case walk (root s) normalized of
             Inl KeyError \<Rightarrow> Inr False
           | Inl e \<Rightarrow> Inl e
           | Inr v \<Rightarrow> Inr True))"

definition get_path :: "object_dict \<Rightarrow> path_arg \<Rightarrow> node option \<Rightarrow> error + node option" where
  "get_path s p dflt =
     (case normalize_path (sep s) p of
        Inl e \<Rightarrow> Inl e
      | Inr normalized \<Rightarrow>
          (case walk (root s) normalized of
             Inl KeyError \<Rightarrow> Inr dflt
           | Inl e \<Rightarrow> Inl e
           | Inr v \<Rightarrow> Inr (Some v)))"

subsection \<open>References into the tree\<close>

text \<open>
  The code keeps references to inner dictionaries and lists and mutates them in place.
  The tree has no sharing, so the address of an inner object is the path from the root
  to it: reading through a reference is \<open>walk\<close> from the root, and a mutation through a
  reference is \<open>modify_at\<close>, which rebuilds the tree around the changed object and
  leaves the order of the keys as it is.
\<close>

fun modify_at :: "node \<Rightarrow> path \<Rightarrow> (node \<Rightarrow> node) \<Rightarrow> node" where
  "modify_at current [] f = f current"
| "modify_at current (key # rest) f =
     (case current of
        Bucket b \<Rightarrow> Bucket b
      | Mapping m \<Rightarrow>
          (case map_of m key of
             None \<Rightarrow> Mapping m
           | Some child \<Rightarrow> Mapping (AList.update key (modify_at child rest f) m)))"

definition pop_key :: "string \<Rightarrow> node \<Rightarrow> node" where
  "pop_key key n = (case n of Mapping m \<Rightarrow> Mapping (AList.delete key m) | Bucket b \<Rightarrow> Bucket b)"

text \<open>\<open>parent.pop(key, None)\<close> for the dictionary \<open>parent\<close> at address \<open>addr\<close>.\<close>

definition pop_at :: "node \<Rightarrow> path \<Rightarrow> string \<Rightarrow> node" where
  "pop_at r addr key = modify_at r addr (pop_key key)"

text \<open>An empty dictionary or an empty list: \<open>not child\<close> for either kind of node.\<close>

fun node_empty :: "node \<Rightarrow> bool" where
  "node_empty (Mapping m) = (m = [])"
| "node_empty (Bucket b) = (b = [])"

text \<open>
  The descent shared by \<open>delete_path\<close> and \<open>_prune_empty_branch\<close>: the loop over
  \<open>normalized[:-1]\<close> that records \<open>(parent, key)\<close> for each key, the parent given by
  its address. \<open>None\<close> is the early return of the loop.
\<close>

fun collect_parents :: "node \<Rightarrow> path \<Rightarrow> path \<Rightarrow> (path \<times> string) list option" where
  "collect_parents current addr [] = Some []"
| "collect_parents current addr (key # rest) =
     (case current of
        Bucket b \<Rightarrow> None
      | Mapping m \<Rightarrow>
          (case map_of m key of
             None \<Rightarrow> None
           | Some child \<Rightarrow>
               (case collect_parents child (addr @ [key]) rest of
                  None \<Rightarrow> None
                | Some parents \<Rightarrow> Some ((addr, key) # parents))))"

subsection \<open>delete\_path\<close>

text \<open>The clean-up loop of \<open>delete_path\<close> over \<open>reversed(parents)\<close>.\<close>

fun delete_cleanup :: "node \<Rightarrow> (path \<times> string) list \<Rightarrow> node" where
  "delete_cleanup r [] = r"
| "delete_cleanup r ((addr, key) # others) =
     (case walk r (addr @ [key]) of
        Inl e \<Rightarrow> delete_cleanup r others
      | Inr child \<Rightarrow>
          if node_empty child then delete_cleanup (pop_at r addr key) others else r)"

definition delete_tree :: "node \<Rightarrow> path \<Rightarrow> bool \<times> node" where
  "delete_tree r normalized =
     (case collect_parents r [] (butlast normalized) of
        None \<Rightarrow> (False, r)
      | Some parents \<Rightarrow>
          (case walk r (butlast normalized) of
             Inr (Mapping current) \<Rightarrow>
               if last normalized \<notin> keys current then (False, r)
               else (True, delete_cleanup (pop_at r (butlast normalized) (last normalized))
                             (rev parents))
           | Inr (Bucket b) \<Rightarrow> (False, r)
           | Inl e \<Rightarrow> (False, r)))"

definition delete_path :: "path_arg \<Rightarrow> object_dict \<Rightarrow> (error + bool) \<times> object_dict" where
  "delete_path p s =
     (case normalize_path (sep s) p of
        Inl e \<Rightarrow> (Inl e, s)
      | Inr normalized \<Rightarrow>
          (let (deleted, r) = delete_tree (root s) normalized
           in (Inr deleted, set_root r s)))"

subsection \<open>Buckets\<close>

text \<open>
  The descent of \<open>_ensure_bucket\<close> from the node \<open>parent\<close>. It returns the contents
  of the bucket, or the exception, and the node as \<open>setdefault\<close> and the creation of
  the bucket have left it. The empty path does not reach this function:
  \<open>_normalize_path\<close> has raised before.
\<close>

fun ensure_from :: "node \<Rightarrow> path \<Rightarrow> bool \<Rightarrow> (error + string list) \<times> node" where
  "ensure_from parent [] create = (Inl ValueError, parent)"
| "ensure_from parent [final] create =
     (case parent of
        Bucket b \<Rightarrow> (Inl TypeError, parent)
      | Mapping m \<Rightarrow>
          (case map_of m final of
             None \<Rightarrow>
               if create then (Inr [], Mapping (AList.update final (Bucket []) m))
               else (Inl KeyError, parent)
           | Some (Bucket b) \<Rightarrow> (Inr b, parent)
           | Some (Mapping c) \<Rightarrow> (Inl TypeError, parent)))"
| "ensure_from parent (key # rest) create =
     (case parent of
        Bucket b \<Rightarrow> (Inl TypeError, parent)
      | Mapping m \<Rightarrow>
          (case map_of m key of
             None \<Rightarrow>
               if create
               then (let (res, child) = ensure_from (Mapping []) rest create
                     in (res, Mapping (AList.update key child m)))
               else (Inl KeyError, parent)
           | Some child0 \<Rightarrow>
               (let (res, child) = ensure_from child0 rest create
                in (res, Mapping (AList.update key child m)))))"

text \<open>
  \<open>_ensure_bucket\<close> returns a reference to the bucket: here its address, the
  normalized path, together with its contents.
\<close>

definition ensure_bucket ::
  "path_arg \<Rightarrow> bool \<Rightarrow> object_dict \<Rightarrow> (error + (path \<times> string list)) \<times> object_dict" where
  "ensure_bucket p create s =
     (case normalize_path (sep s) p of
        Inl e \<Rightarrow> (Inl e, s)
      | Inr normalized \<Rightarrow>
          (case ensure_from (root s) normalized create of
             (Inl e, r) \<Rightarrow> (Inl e, set_root r s)
           | (Inr bucket, r) \<Rightarrow> (Inr (normalized, bucket), set_root r s)))"

text \<open>A mutation of the list behind a bucket reference.\<close>

definition write_bucket :: "path \<Rightarrow> string list \<Rightarrow> object_dict \<Rightarrow> object_dict" where
  "write_bucket addr bucket s = set_root (modify_at (root s) addr (\<lambda>old. Bucket bucket)) s"

definition add_object ::
  "path_arg \<Rightarrow> string \<Rightarrow> bool \<Rightarrow> object_dict \<Rightarrow> (error + bool) \<times> object_dict" where
  "add_object p object_name allow_duplicates s =
     (case ensure_bucket p True s of
        (Inl e, s1) \<Rightarrow> (Inl e, s1)
      | (Inr (addr, bucket), s1) \<Rightarrow>
          if \<not> allow_duplicates \<and> object_name \<in> set bucket then (Inr False, s1)
          else (Inr True, write_bucket addr (bucket @ [object_name]) s1))"



subsection \<open>Traversal\<close>

fun iter_objects :: "node \<Rightarrow> path \<Rightarrow> (string \<times> path) list" where
  "iter_objects (Bucket b) p = map (\<lambda>obj. (obj, p)) b"
| "iter_objects (Mapping m) p =
     concat (map (\<lambda>(key, child). iter_objects child (p @ [key])) m)"

definition iter_object_paths :: "object_dict \<Rightarrow> (string \<times> path) list" where
  "iter_object_paths s = iter_objects (root s) []"

definition find_object :: "object_dict \<Rightarrow> string \<Rightarrow> path option" where
  "find_object s object_name =
     map_option snd (find (\<lambda>(n, p). n = object_name) (iter_object_paths s))"

definition list_objects :: "object_dict \<Rightarrow> (string \<times> path list) list" where
  "list_objects s =
     foldl (\<lambda>result (n, p).
              AList.update n ((case map_of result n of Some ps \<Rightarrow> ps | None \<Rightarrow> []) @ [p]) result)
       [] (iter_object_paths s)"

subsection \<open>Pruning, removal and moving\<close>

text \<open>The \<open>while parents\<close> loop of \<open>_prune_empty_branch\<close>, popping from the right.\<close>

fun prune_loop :: "node \<Rightarrow> (path \<times> string) list \<Rightarrow> node" where
  "prune_loop r [] = r"
| "prune_loop r ((addr, key) # others) =
     (case walk r (addr @ [key]) of
        Inl e \<Rightarrow> r
      | Inr child \<Rightarrow>
          if node_empty child then prune_loop (pop_at r addr key) others else r)"

definition prune_tree :: "node \<Rightarrow> path \<Rightarrow> node" where
  "prune_tree r normalized =
     (case collect_parents r [] (butlast normalized) of
        None \<Rightarrow> r
      | Some parents \<Rightarrow>
          (case walk r (butlast normalized) of
             Inr (Mapping current) \<Rightarrow>
               (let r1 = (case map_of current (last normalized) of
                            Some (Bucket []) \<Rightarrow> pop_at r (butlast normalized) (last normalized)
                          | Some leaf \<Rightarrow> r
                          | None \<Rightarrow> r)
                in prune_loop r1 (rev parents))
           | Inr (Bucket b) \<Rightarrow> r
           | Inl e \<Rightarrow> r))"

definition prune_empty_branch :: "path_arg \<Rightarrow> object_dict \<Rightarrow> (error + unit) \<times> object_dict" where
  "prune_empty_branch p s =
     (case normalize_path (sep s) p of
        Inl e \<Rightarrow> (Inl e, s)
      | Inr normalized \<Rightarrow> (Inr (), set_root (prune_tree (root s) normalized) s))"

text \<open>
  \<open>list.remove\<close> deletes the first occurrence and raises \<open>ValueError\<close> when there is
  none; the bucket is changed through its reference, then the branch is pruned.
\<close>

definition remove_from ::
  "path_arg \<Rightarrow> path \<Rightarrow> string list \<Rightarrow> string \<Rightarrow> object_dict \<Rightarrow> (error + unit) \<times> object_dict" where
  "remove_from p addr bucket object_name s =
     (if object_name \<notin> set bucket then (Inl ValueError, s)
      else prune_empty_branch p (write_bucket addr (remove1 object_name bucket) s))"

definition remove_object ::
  "string \<Rightarrow> path_arg option \<Rightarrow> object_dict \<Rightarrow> (error + bool) \<times> object_dict" where
  "remove_object object_name p s =
     (case p of
        Some given \<Rightarrow>
          (case ensure_bucket given False s of
             (Inl KeyError, s1) \<Rightarrow> (Inr False, s1)
           | (Inl e, s1) \<Rightarrow> (Inl e, s1)
           | (Inr (addr, bucket), s1) \<Rightarrow>
               if object_name \<notin> set bucket then (Inr False, s1)
               else (case prune_empty_branch given
                            (write_bucket addr (remove1 object_name bucket) s1) of
                       (Inl e, s2) \<Rightarrow> (Inl e, s2)
                     | (Inr u, s2) \<Rightarrow> (Inr True, s2)))
      | None \<Rightarrow>
          (case find_object s object_name of
             None \<Rightarrow> (Inr False, s)
           | Some match \<Rightarrow>
               (case ensure_bucket (PSeq match) False s of
                  (Inl e, s1) \<Rightarrow> (Inl e, s1)
                | (Inr (addr, bucket), s1) \<Rightarrow>
                    (case remove_from (PSeq match) addr bucket object_name s1 of
                       (Inl e, s2) \<Rightarrow> (Inl e, s2)
                     | (Inr u, s2) \<Rightarrow> (Inr True, s2)))))"

definition move_object ::
  "string \<Rightarrow> path_arg \<Rightarrow> path_arg option \<Rightarrow> bool \<Rightarrow> object_dict \<Rightarrow> (error + bool) \<times> object_dict" where
  "move_object object_name new_path old_path allow_duplicates s =
     (case remove_object object_name old_path s of
        (Inl e, s1) \<Rightarrow> (Inl e, s1)
      | (Inr removed, s1) \<Rightarrow>
          if \<not> removed then (Inr False, s1)
          else (case add_object new_path object_name allow_duplicates s1 of
                  (Inl e, s2) \<Rightarrow> (Inl e, s2)
                | (Inr added, s2) \<Rightarrow> (Inr True, s2)))"

text \<open>
  The invariant of a Python dictionary: no key occurs twice, at any level of the tree.
\<close>

fun wf_node :: "node \<Rightarrow> bool" where
  "wf_node (Bucket b) = True"
| "wf_node (Mapping m) = (distinct (map fst m) \<and> (\<forall>(key, child) \<in> set m. wf_node child))"

definition wf_index :: "object_dict \<Rightarrow> bool" where
  "wf_index s = wf_node (root s)"

subsection \<open>Pruning as the specification words it\<close>

text \<open>
  The specification of pruning, in its own words: the emptied bucket is detached from
  its parent; then, walking upward, every ancestor mapping that is left empty is
  detached in turn, stopping at the first ancestor that is not empty or at the root.
  \<open>detach r q\<close> takes the node at path \<open>q\<close> out of its parent, and \<open>butlast q\<close> is
  the path of that parent: it is the root when it is empty. \<open>parents_of\<close> lists the
  \<open>(parent, key)\<close> pairs along a path; it serves the comparison with the code.
\<close>

definition detach :: "node \<Rightarrow> path \<Rightarrow> node" where
  "detach r q = pop_at r (butlast q) (last q)"

function prune_spec :: "node \<Rightarrow> path \<Rightarrow> node" where
  "prune_spec r q =
     (let r1 = detach r q
      in if butlast q \<noteq> [] \<and> walk r1 (butlast q) = Inr (Mapping [])
         then prune_spec r1 (butlast q)
         else r1)"
  by pat_completeness auto
termination
proof (relation "measure (\<lambda>(r, q). length q)")
  show "wf (measure (\<lambda>(r, q). length q))" by simp
next
  fix r :: node and q :: path and x
  assume "butlast q \<noteq> [] \<and> walk x (butlast q) = Inr (Mapping [])"
  then have "q \<noteq> []" by auto
  then show "((x, butlast q), (r, q)) \<in> measure (\<lambda>(r, q). length q)" by simp
qed

fun parents_of :: "path \<Rightarrow> path \<Rightarrow> (path \<times> string) list" where
  "parents_of addr [] = []"
| "parents_of addr (key # rest) = (addr, key) # parents_of (addr @ [key]) rest"

declare prune_spec.simps [simp del]

text \<open>
  Every place where a name is stored: one pair of the name and the path of the bucket
  for each occurrence, in traversal order.
\<close>

definition occurrences :: "object_dict \<Rightarrow> string \<Rightarrow> (string \<times> path) list" where
  "occurrences s object_name = filter (\<lambda>(a, q). a = object_name) (iter_object_paths s)"

section \<open>preference\_service.py: the tool handlers\<close>

text \<open>
  The service owns the named process graphs, in a dictionary, and one object
  dictionary. A handler returns an envelope, \<open>{"status": "success", ...}\<close> or
  \<open>{"status": "error", "message": ...}\<close>. The text of a message is an f-string over the
  arguments: the model keeps which message it is and its arguments, not the rendered
  text.
\<close>

record preference_service =
  graphs :: "(string \<times> process_graph) list"
  object_dict :: object_dict

record snapshot =
  snap_name :: string
  snap_steps :: "string list"
  snap_transitions :: "(string \<times> string) list"

datatype message =
    GraphExists string
  | GraphNotFound string
  | GraphDeleted string
  | ObjectNotFound string
  | ObjectExistsAt string path_arg
  | UnableToMove string
  | PathMissing path_arg
  | PathRemoved path_arg
  | NotRegistered string
  | ArgumentsNotObject string
  | InvalidArguments string error
  | ToolFailed string error

datatype payload =
    Graphs "snapshot list"
  | Graph snapshot
  | Message message
  | Locations "path list"
  | LocationMap "(string \<times> path list) list"
  | ObjectPath string path_arg
  | ObjectNewPath string path_arg

datatype envelope = Success payload | Error message

definition graph_snapshot :: "process_graph \<Rightarrow> snapshot" where
  "graph_snapshot graph =
     (let sorted_steps = sort (steps (adjacency graph))
      in \<lparr>snap_name = gname graph,
          snap_steps = sorted_steps,
          snap_transitions =
            concat (map (\<lambda>step. map (\<lambda>successor. (step, successor))
                                   (successors (adjacency graph) step)) sorted_steps)\<rparr>)"

definition tool_list_process_graphs ::
  "preference_service \<Rightarrow> (error + envelope) \<times> preference_service" where
  "tool_list_process_graphs svc =
     (Inr (Success (Graphs (map (\<lambda>(n, graph). graph_snapshot graph) (graphs svc)))), svc)"

definition tool_create_process_graph ::
  "string \<Rightarrow> preference_service \<Rightarrow> (error + envelope) \<times> preference_service" where
  "tool_create_process_graph n svc =
     (if n \<in> keys (graphs svc) then (Inr (Error (GraphExists n)), svc)
      else (let graph = new_graph n
            in (Inr (Success (Graph (graph_snapshot graph))),
                svc\<lparr>graphs := AList.update n graph (graphs svc)\<rparr>)))"

definition tool_delete_process_graph ::
  "string \<Rightarrow> preference_service \<Rightarrow> (error + envelope) \<times> preference_service" where
  "tool_delete_process_graph n svc =
     (case map_of (graphs svc) n of
        None \<Rightarrow> (Inr (Error (GraphNotFound n)), svc)
      | Some graph \<Rightarrow>
          (Inr (Success (Message (GraphDeleted n))),
           svc\<lparr>graphs := AList.delete n (graphs svc)\<rparr>))"

text \<open>
  The four handlers that change one graph share their shape: look the graph up, change
  its adjacency in place, answer with its snapshot.
\<close>

definition with_graph ::
  "string \<Rightarrow> (adjacency \<Rightarrow> error + adjacency) \<Rightarrow> preference_service
     \<Rightarrow> (error + envelope) \<times> preference_service" where
  "with_graph graph_name change svc =
     (case map_of (graphs svc) graph_name of
        None \<Rightarrow> (Inr (Error (GraphNotFound graph_name)), svc)
      | Some graph \<Rightarrow>
          (case change (adjacency graph) of
             Inl e \<Rightarrow> (Inl e, svc)
           | Inr adj \<Rightarrow>
               (let graph' = graph\<lparr>adjacency := adj\<rparr>
                in (Inr (Success (Graph (graph_snapshot graph'))),
                    svc\<lparr>graphs := AList.update graph_name graph' (graphs svc)\<rparr>))))"

definition tool_add_process_step ::
  "string \<Rightarrow> string \<Rightarrow> preference_service \<Rightarrow> (error + envelope) \<times> preference_service" where
  "tool_add_process_step graph_name step svc =
     with_graph graph_name (\<lambda>adj. Inr (add_step adj step)) svc"

definition tool_update_process_step ::
  "string \<Rightarrow> string \<Rightarrow> string \<Rightarrow> preference_service
     \<Rightarrow> (error + envelope) \<times> preference_service" where
  "tool_update_process_step graph_name old_step new_step svc =
     with_graph graph_name (\<lambda>adj. update_step adj old_step new_step) svc"

definition tool_add_process_transition ::
  "string \<Rightarrow> string \<Rightarrow> string \<Rightarrow> preference_service
     \<Rightarrow> (error + envelope) \<times> preference_service" where
  "tool_add_process_transition graph_name start end svc =
     with_graph graph_name (\<lambda>adj. Inr (add_transition adj start end)) svc"

definition tool_remove_process_transition ::
  "string \<Rightarrow> string \<Rightarrow> string \<Rightarrow> preference_service
     \<Rightarrow> (error + envelope) \<times> preference_service" where
  "tool_remove_process_transition graph_name start end svc =
     with_graph graph_name (\<lambda>adj. Inr (remove_transition adj start end)) svc"

text \<open>\<open>if object_name:\<close> is false for \<open>None\<close> and for the empty string.\<close>

definition tool_list_object_locations ::
  "string option \<Rightarrow> preference_service \<Rightarrow> (error + envelope) \<times> preference_service" where
  "tool_list_object_locations object_name svc =
     (case object_name of
        Some n \<Rightarrow>
          if n \<noteq> [] then
            (case find_object (object_dict svc) n of
               None \<Rightarrow> (Inr (Error (ObjectNotFound n)), svc)
             | Some p \<Rightarrow> (Inr (Success (Locations [p])), svc))
          else (Inr (Success (LocationMap (list_objects (object_dict svc)))), svc)
      | None \<Rightarrow> (Inr (Success (LocationMap (list_objects (object_dict svc)))), svc))"

definition tool_add_object ::
  "path_arg \<Rightarrow> string \<Rightarrow> bool \<Rightarrow> preference_service
     \<Rightarrow> (error + envelope) \<times> preference_service" where
  "tool_add_object p object_name allow_duplicates svc =
     (case add_object p object_name allow_duplicates (object_dict svc) of
        (Inl e, od) \<Rightarrow> (Inl e, svc\<lparr>object_dict := od\<rparr>)
      | (Inr added, od) \<Rightarrow>
          if \<not> added then (Inr (Error (ObjectExistsAt object_name p)), svc\<lparr>object_dict := od\<rparr>)
          else (Inr (Success (ObjectPath object_name p)), svc\<lparr>object_dict := od\<rparr>))"

definition tool_move_object ::
  "string \<Rightarrow> path_arg \<Rightarrow> path_arg option \<Rightarrow> bool \<Rightarrow> preference_service
     \<Rightarrow> (error + envelope) \<times> preference_service" where
  "tool_move_object object_name new_path old_path allow_duplicates svc =
     (case move_object object_name new_path old_path allow_duplicates (object_dict svc) of
        (Inl e, od) \<Rightarrow> (Inl e, svc\<lparr>object_dict := od\<rparr>)
      | (Inr moved, od) \<Rightarrow>
          if \<not> moved then (Inr (Error (UnableToMove object_name)), svc\<lparr>object_dict := od\<rparr>)
          else (Inr (Success (ObjectNewPath object_name new_path)), svc\<lparr>object_dict := od\<rparr>))"

definition tool_delete_path ::
  "path_arg \<Rightarrow> preference_service \<Rightarrow> (error + envelope) \<times> preference_service" where
  "tool_delete_path p svc =
     (case delete_path p (object_dict svc) of
        (Inl e, od) \<Rightarrow> (Inl e, svc\<lparr>object_dict := od\<rparr>)
      | (Inr deleted, od) \<Rightarrow>
          if \<not> deleted then (Inr (Error (PathMissing p)), svc\<lparr>object_dict := od\<rparr>)
          else (Inr (Success (Message (PathRemoved p))), svc\<lparr>object_dict := od\<rparr>))"

subsection \<open>The registry and the call from the orchestrator\<close>

datatype tool =
    ListProcessGraphs | CreateProcessGraph | DeleteProcessGraph | AddProcessStep
  | UpdateProcessStep | AddProcessTransition | RemoveProcessTransition
  | ListObjectLocations | AddObject | MoveObject | DeletePath

definition function_registry :: "(string \<times> tool) list" where
  "function_registry =
     [(''list_process_graphs'', ListProcessGraphs),
      (''create_process_graph'', CreateProcessGraph),
      (''delete_process_graph'', DeleteProcessGraph),
      (''add_process_step'', AddProcessStep),
      (''update_process_step'', UpdateProcessStep),
      (''add_process_transition'', AddProcessTransition),
      (''remove_process_transition'', RemoveProcessTransition),
      (''list_object_locations'', ListObjectLocations),
      (''add_object'', AddObject),
      (''move_object'', MoveObject),
      (''delete_path'', DeletePath)]"

definition get_tool_callable :: "string \<Rightarrow> error + tool" where
  "get_tool_callable function_name =
     (case map_of function_registry function_name of
        None \<Rightarrow> Inl KeyError
      | Some t \<Rightarrow> Inr t)"

text \<open>
  The keyword arguments of a call, with values of the declared types, grouped by the
  set of keywords present; an optional parameter left out is \<open>None\<close>. \<open>KwOther\<close> is any
  other set of keywords. \<open>tool(**args)\<close> raises \<open>TypeError\<close> when the keywords do not
  fit the signature of the handler, before the handler runs: that is \<open>mismatch\<close>.
\<close>

datatype kwargs =
    KwNone
  | KwName string
  | KwGraphStep string string
  | KwRename string string string
  | KwEdge string string string
  | KwObjectName string
  | KwAddObject path_arg string "bool option"
  | KwMoveObject string path_arg "path_arg option" "bool option"
  | KwPath path_arg
  | KwOther

datatype tool_args = NotADict | Dict kwargs

definition flag :: "bool option \<Rightarrow> bool" where
  "flag b = (case b of Some v \<Rightarrow> v | None \<Rightarrow> False)"

definition mismatch :: "preference_service \<Rightarrow> (error + envelope) \<times> preference_service" where
  "mismatch svc = (Inl TypeError, svc)"

definition call_tool ::
  "tool \<Rightarrow> kwargs \<Rightarrow> preference_service \<Rightarrow> (error + envelope) \<times> preference_service" where
  "call_tool t kw svc =
     (case t of
        ListProcessGraphs \<Rightarrow>
          (case kw of KwNone \<Rightarrow> tool_list_process_graphs svc | _ \<Rightarrow> mismatch svc)
      | CreateProcessGraph \<Rightarrow>
          (case kw of KwName n \<Rightarrow> tool_create_process_graph n svc | _ \<Rightarrow> mismatch svc)
      | DeleteProcessGraph \<Rightarrow>
          (case kw of KwName n \<Rightarrow> tool_delete_process_graph n svc | _ \<Rightarrow> mismatch svc)
      | AddProcessStep \<Rightarrow>
          (case kw of KwGraphStep g step \<Rightarrow> tool_add_process_step g step svc
           | _ \<Rightarrow> mismatch svc)
      | UpdateProcessStep \<Rightarrow>
          (case kw of
             KwRename g old_step new_step \<Rightarrow> tool_update_process_step g old_step new_step svc
           | _ \<Rightarrow> mismatch svc)
      | AddProcessTransition \<Rightarrow>
          (case kw of KwEdge g start end \<Rightarrow> tool_add_process_transition g start end svc
           | _ \<Rightarrow> mismatch svc)
      | RemoveProcessTransition \<Rightarrow>
          (case kw of KwEdge g start end \<Rightarrow> tool_remove_process_transition g start end svc
           | _ \<Rightarrow> mismatch svc)
      | ListObjectLocations \<Rightarrow>
          (case kw of
             KwNone \<Rightarrow> tool_list_object_locations None svc
           | KwObjectName n \<Rightarrow> tool_list_object_locations (Some n) svc
           | _ \<Rightarrow> mismatch svc)
      | AddObject \<Rightarrow>
          (case kw of KwAddObject p n dup \<Rightarrow> tool_add_object p n (flag dup) svc
           | _ \<Rightarrow> mismatch svc)
      | MoveObject \<Rightarrow>
          (case kw of
             KwMoveObject n new_path old_path dup \<Rightarrow>
               tool_move_object n new_path old_path (flag dup) svc
           | _ \<Rightarrow> mismatch svc)
      | DeletePath \<Rightarrow>
          (case kw of KwPath p \<Rightarrow> tool_delete_path p svc | _ \<Rightarrow> mismatch svc))"

text \<open>
  The signatures of the handlers: which keywords each one accepts. \<open>fits t kw\<close> holds
  when \<open>tool(**args)\<close> binds, so that the handler runs.
\<close>

definition fits :: "tool \<Rightarrow> kwargs \<Rightarrow> bool" where
  "fits t kw =
     (case t of
        ListProcessGraphs \<Rightarrow> (case kw of KwNone \<Rightarrow> True | _ \<Rightarrow> False)
      | CreateProcessGraph \<Rightarrow> (case kw of KwName n \<Rightarrow> True | _ \<Rightarrow> False)
      | DeleteProcessGraph \<Rightarrow> (case kw of KwName n \<Rightarrow> True | _ \<Rightarrow> False)
      | AddProcessStep \<Rightarrow> (case kw of KwGraphStep g step \<Rightarrow> True | _ \<Rightarrow> False)
      | UpdateProcessStep \<Rightarrow> (case kw of KwRename g a b \<Rightarrow> True | _ \<Rightarrow> False)
      | AddProcessTransition \<Rightarrow> (case kw of KwEdge g a b \<Rightarrow> True | _ \<Rightarrow> False)
      | RemoveProcessTransition \<Rightarrow> (case kw of KwEdge g a b \<Rightarrow> True | _ \<Rightarrow> False)
      | ListObjectLocations \<Rightarrow>
          (case kw of KwNone \<Rightarrow> True | KwObjectName n \<Rightarrow> True | _ \<Rightarrow> False)
      | AddObject \<Rightarrow> (case kw of KwAddObject p n dup \<Rightarrow> True | _ \<Rightarrow> False)
      | MoveObject \<Rightarrow> (case kw of KwMoveObject n p q dup \<Rightarrow> True | _ \<Rightarrow> False)
      | DeletePath \<Rightarrow> (case kw of KwPath p \<Rightarrow> True | _ \<Rightarrow> False))"

text \<open>
  \<open>_execute_tool_call\<close> of the orchestrator (gemini.py): the only place where an
  exception of a handler is caught.
\<close>

definition execute_tool_call ::
  "string \<Rightarrow> tool_args \<Rightarrow> preference_service \<Rightarrow> envelope \<times> preference_service" where
  "execute_tool_call function_name args svc =
     (case get_tool_callable function_name of
        Inl e \<Rightarrow> (Error (NotRegistered function_name), svc)
      | Inr t \<Rightarrow>
          (case args of
             NotADict \<Rightarrow> (Error (ArgumentsNotObject function_name), svc)
           | Dict kw \<Rightarrow>
               (case call_tool t kw svc of
                  (Inl TypeError, svc') \<Rightarrow> (Error (InvalidArguments function_name TypeError), svc')
                | (Inl e, svc') \<Rightarrow> (Error (ToolFailed function_name e), svc')
                | (Inr env, svc') \<Rightarrow> (env, svc'))))"

section \<open>Properties of the process graph\<close>

lemma keys_update [simp]: "keys (AList.update k v d) = insert k (keys d)"
  by (simp add: keys_def dom_update)

lemma keys_delete [simp]: "keys (AList.delete k d) = keys d - {k}"
  by (auto simp: keys_def AList.delete_eq)

lemma map_of_eq_None_keys: "map_of d k = None \<longleftrightarrow> k \<notin> keys d"
  by (simp add: keys_def map_of_eq_None_iff)

lemma in_keys_iff: "k \<in> keys d \<longleftrightarrow> map_of d k \<noteq> None"
  by (simp add: keys_def map_of_eq_None_iff)

lemma map_of_map_entry:
  "map_of (map (\<lambda>(k, v). (k, f v)) d) k = map_option f (map_of d k)"
  by (induction d) auto

lemma keys_map_entry [simp]: "keys (map (\<lambda>(k, v). (k, f v)) d) = keys d"
  by (force simp: keys_def)

lemma py_ne_str_set: "py_ne (PyStr s) (PySet ns)"
  by (simp add: py_ne_def)

lemma repoint_eq: "repoint old new ns = rename old new ` ns"
  by (auto simp: repoint_def py_ne_def rename_def Let_def)

lemma succ_set_update: "succ_set (AList.update k v d) u = (if u = k then v else succ_set d u)"
  by (simp add: succ_set_def update_conv')

lemma succ_set_delete: "succ_set (AList.delete k d) u = (if u = k then {} else succ_set d u)"
  by (simp add: succ_set_def delete_conv')

lemma succ_set_map_entry: "succ_set (map (\<lambda>(k, v). (k, f v)) d) u = (if u \<in> keys d then f (succ_set d u) else {})"
  by (cases "map_of d u") (auto simp: succ_set_def map_of_map_entry in_keys_iff)

lemma succ_set_notin: "u \<notin> keys d \<Longrightarrow> succ_set d u = {}"
  by (simp add: succ_set_def map_of_eq_None_keys[symmetric])

lemma succ_set_add_step: "succ_set (add_step d k) u = succ_set d u"
  by (simp add: add_step_def succ_set_update succ_set_notin)

lemma keys_add_step: "keys (add_step d k) = insert k (keys d)"
  by (auto simp: add_step_def)

lemma pop_present:
  "k \<in> keys d \<Longrightarrow> pop k d = Inr (succ_set d k, AList.delete k d)"
  by (auto simp: pop_def succ_set_def map_of_eq_None_keys split: option.splits)

lemma dd_get_present:
  "k \<in> keys d \<Longrightarrow> dd_get d k = (succ_set d k, d)"
  by (auto simp: dd_get_def succ_set_def map_of_eq_None_keys split: option.splits)

lemma update_step_result:
  assumes "old \<noteq> new" "old \<in> keys adj"
  shows "\<exists>adj'. update_step adj old new = Inr adj' \<and> keys adj' = insert new (keys adj - {old}) \<and>
     (\<forall>u. succ_set adj' u =
        (if u = old then {}
         else if u = new then rename old new ` (succ_set adj new \<union> (succ_set adj old - {new}))
         else rename old new ` succ_set adj u))"
proof -
  let ?a1 = "add_step adj new"
  let ?a2 = "AList.delete old ?a1"
  let ?a4 = "AList.update new (succ_set adj new \<union> (succ_set adj old - {new})) ?a2"
  let ?r = "map (\<lambda>(k, neighbors). (k, repoint old new neighbors)) ?a4"
  have k1: "old \<in> keys ?a1" using assms by (simp add: keys_add_step)
  have k2: "new \<in> keys ?a2" using assms by (simp add: keys_add_step)
  have p: "pop old ?a1 = Inr (succ_set adj old, ?a2)"
    using pop_present[OF k1] by (simp add: succ_set_add_step)
  have g: "dd_get ?a2 new = (succ_set adj new, ?a2)"
    using dd_get_present[OF k2] assms by (simp add: succ_set_delete succ_set_add_step)
  have r: "update_step adj old new = Inr ?r"
    using assms by (simp add: update_step_def p g)
  have kr: "keys ?r = insert new (keys adj - {old})"
    using assms by (auto simp: keys_add_step)
  have sr: "succ_set ?r u =
        (if u = old then {}
         else if u = new then rename old new ` (succ_set adj new \<union> (succ_set adj old - {new}))
         else rename old new ` succ_set adj u)" for u
    using assms
    by (simp add: succ_set_map_entry succ_set_update succ_set_delete succ_set_add_step
        keys_add_step repoint_eq succ_set_notin)
  show ?thesis using r kr sr by blast
qed


lemma in_edges: "(u, v) \<in> edges adj \<longleftrightarrow> v \<in> succ_set adj u"
  by (simp add: edges_def)

text \<open>
  C2. The claim: when incoming edges are re-pointed, the addition of \<open>new\<close> is skipped for
  the step \<open>new\<close> itself, so that no self-loop on \<open>new\<close> is created. The guard of the
  source compares \<open>new_step\<close> with the successor set, not with the step that owns the
  set, so it never skips: renaming \<open>Cook\<close> to \<open>Saute\<close> in the graph with the single
  edge \<open>Saute \<rightarrow> Cook\<close> leaves the self-loop \<open>Saute \<rightarrow> Saute\<close>.
\<close>

theorem update_step_self_loop_on_new:
  "update_step (add_transition [] ''Saute'' ''Cook'') ''Cook'' ''Saute'' = Inr [(''Saute'', {''Saute''})]"
  by (simp add: update_step_def add_transition_def add_step_def dd_get_def pop_def keys_def
      repoint_def py_ne_def AList.delete_eq Let_def)

text \<open>
  C3, as stated, fails: the edge \<open>Cook \<rightarrow> Saute\<close> touches \<open>Cook\<close>, and after renaming
  \<open>Cook\<close> to \<open>Saute\<close> the former successor \<open>Saute\<close> of \<open>Cook\<close> is not a successor
  of \<open>Saute\<close>: the edge is lost.
\<close>

theorem update_step_drops_edge_counterexample:
  "''Saute'' \<in> succ_set (add_transition [] ''Cook'' ''Saute'') ''Cook'' \<and>
   update_step (add_transition [] ''Cook'' ''Saute'') ''Cook'' ''Saute'' = Inr [(''Saute'', {})] \<and>
   ''Saute'' \<notin> succ_set [(''Saute'', {})] ''Saute''"
  by (simp add: update_step_def add_transition_def add_step_def dd_get_def pop_def keys_def
      repoint_def py_ne_def AList.delete_eq Let_def succ_set_def)

lemma in_rename_image:
  "x \<in> rename old new ` S \<longleftrightarrow> (x = new \<and> old \<in> S) \<or> (x \<noteq> old \<and> x \<in> S)"
  by (auto simp: rename_def)

lemma in_rename_edge_image:
  "(a, b) \<in> rename_edge old new ` edges adj \<longleftrightarrow>
     (\<exists>u v. v \<in> succ_set adj u \<and> a = rename old new u \<and> b = rename old new v)"
proof
  assume "(a, b) \<in> rename_edge old new ` edges adj"
  then obtain e where e: "e \<in> edges adj" "(a, b) = rename_edge old new e" by blast
  obtain u v where uv: "e = (u, v)" by (cases e)
  from e uv have "v \<in> succ_set adj u \<and> a = rename old new u \<and> b = rename old new v"
    by (simp add: in_edges rename_edge_def)
  then show "\<exists>u v. v \<in> succ_set adj u \<and> a = rename old new u \<and> b = rename old new v"
    by blast
next
  assume "\<exists>u v. v \<in> succ_set adj u \<and> a = rename old new u \<and> b = rename old new v"
  then obtain u v where uv: "v \<in> succ_set adj u" "a = rename old new u" "b = rename old new v"
    by blast
  have "(a, b) = rename_edge old new (u, v)" using uv by (simp add: rename_edge_def)
  moreover have "(u, v) \<in> edges adj" using uv by (simp add: in_edges)
  ultimately show "(a, b) \<in> rename_edge old new ` edges adj" by (rule image_eqI)
qed

lemma rename_eq_iff:
  "a = rename old new u \<longleftrightarrow> (u = old \<and> a = new) \<or> (u \<noteq> old \<and> a = u)"
  by (auto simp: rename_def)

lemma update_step_edge_iff:
  assumes "old \<noteq> new"
    and s: "\<And>u. succ_set adj' u =
        (if u = old then {}
         else if u = new then rename old new ` (succ_set adj new \<union> (succ_set adj old - {new}))
         else rename old new ` succ_set adj u)"
    and ne: "(a, b) \<noteq> (new, new)"
  shows "(a, b) \<in> edges adj' \<longleftrightarrow> (a, b) \<in> rename_edge old new ` edges adj"
proof (cases "a = old")
  case True
  then show ?thesis using assms(1)
    by (simp add: in_edges s in_rename_edge_image rename_eq_iff)
next
  case False
  show ?thesis
  proof (cases "a = new")
    case True
    with ne have b: "b \<noteq> new" by simp
    show ?thesis using assms(1) True b
      by (simp add: in_edges s in_rename_edge_image rename_eq_iff in_rename_image) blast
  next
    case an: False
    show ?thesis using assms(1) False an
      by (simp add: in_edges s in_rename_edge_image rename_eq_iff in_rename_image) blast
  qed
qed


text \<open>
  C3 (amended). For \<open>old \<noteq> new\<close> with \<open>old\<close> a step of the graph, \<open>update_step\<close>
  returns; \<open>old\<close> is no longer a step and \<open>new\<close> is one; no successor set refers to
  \<open>old\<close>; apart from a possible self-loop on \<open>new\<close>, the edges of the result are
  exactly the edges of the graph with \<open>old\<close> renamed to \<open>new\<close>; and the edge
  \<open>old \<rightarrow> new\<close> alone does not give a self-loop on \<open>new\<close>.
\<close>

theorem update_step_repoints_edges:
  assumes "old_step \<noteq> new_step" and "old_step \<in> keys adj"
  shows "\<exists>adj'. update_step adj old_step new_step = Inr adj' \<and>
     keys adj' = insert new_step (keys adj - {old_step}) \<and>
     (\<forall>u. old_step \<notin> succ_set adj' u) \<and>
     edges adj' - {(new_step, new_step)} =
       rename_edge old_step new_step ` edges adj - {(new_step, new_step)} \<and>
     ((new_step, new_step) \<notin> edges adj \<and> (new_step, old_step) \<notin> edges adj \<and>
      (old_step, old_step) \<notin> edges adj \<longrightarrow> (new_step, new_step) \<notin> edges adj')"
proof -
  from update_step_result[OF assms] obtain adj' where
    r: "update_step adj old_step new_step = Inr adj'" and
    k: "keys adj' = insert new_step (keys adj - {old_step})" and
    s: "\<And>u. succ_set adj' u =
        (if u = old_step then {}
         else if u = new_step
           then rename old_step new_step ` (succ_set adj new_step \<union> (succ_set adj old_step - {new_step}))
         else rename old_step new_step ` succ_set adj u)"
    by blast
  have noref: "\<forall>u. old_step \<notin> succ_set adj' u"
    using assms(1) by (simp add: s in_rename_image)
  have "e \<in> edges adj' - {(new_step, new_step)} \<longleftrightarrow>
        e \<in> rename_edge old_step new_step ` edges adj - {(new_step, new_step)}" for e
  proof (cases e)
    case (Pair a b)
    show ?thesis
    proof (cases "(a, b) = (new_step, new_step)")
      case True
      with Pair show ?thesis by simp
    next
      case False
      from update_step_edge_iff[OF assms(1) s False] Pair False show ?thesis by simp
    qed
  qed
  then have eq: "edges adj' - {(new_step, new_step)} =
       rename_edge old_step new_step ` edges adj - {(new_step, new_step)}"
    by (rule set_eqI)
  have loop: "(new_step, new_step) \<notin> edges adj \<and> (new_step, old_step) \<notin> edges adj \<and>
      (old_step, old_step) \<notin> edges adj \<longrightarrow> (new_step, new_step) \<notin> edges adj'"
    using assms(1) by (simp add: in_edges s in_rename_image)
  from r k noref eq loop show ?thesis by blast
qed

text \<open>
  The renaming of the test suite: \<open>Cook\<close> becomes \<open>Saute\<close> in the graph with the edges
  \<open>Prep \<rightarrow> Cook\<close>, \<open>Cook \<rightarrow> Plate\<close> and \<open>Cleanup \<rightarrow> Cook\<close>.
\<close>

theorem update_step_repoints_edges_witness:
  "\<exists>adj'. update_step [(''Prep'', {''Cook''}), (''Cook'', {''Plate''}), (''Plate'', {}), (''Cleanup'', {''Cook''})]
       ''Cook'' ''Saute'' = Inr adj' \<and>
     keys adj' = {''Saute'', ''Prep'', ''Plate'', ''Cleanup''} \<and>
     (\<forall>u. ''Cook'' \<notin> succ_set adj' u)"
proof -
  let ?g = "[(''Prep'', {''Cook''}), (''Cook'', {''Plate''}), (''Plate'', {}), (''Cleanup'', {''Cook''})]"
  have h1: "''Cook'' \<noteq> ''Saute''" by simp
  have h2: "''Cook'' \<in> keys ?g" by (simp add: keys_def)
  have k: "insert ''Saute'' (keys ?g - {''Cook''}) = {''Saute'', ''Prep'', ''Plate'', ''Cleanup''}"
    by (auto simp: keys_def)
  from update_step_repoints_edges[OF h1 h2] obtain adj' where
    "update_step ?g ''Cook'' ''Saute'' = Inr adj'"
    "keys adj' = insert ''Saute'' (keys ?g - {''Cook''})"
    "\<forall>u. ''Cook'' \<notin> succ_set adj' u"
    by blast
  with k show ?thesis by auto
qed

section \<open>Properties of the object dictionary\<close>

lemma set_root_root [simp]: "set_root (root s) s = s"
  by (simp add: set_root_def root_def)

lemma root_set_root_Mapping [simp]: "root (set_root (Mapping m) s) = Mapping m"
  by (simp add: set_root_def root_def)

lemma sep_set_root [simp]: "sep (set_root r s) = sep s"
  by (simp add: set_root_def)

lemma ensure_from_Bucket [simp]:
  "ensure_from (Bucket b) (key # rest) c = (Inl TypeError, Bucket b)"
  by (cases rest) simp_all

lemma ensure_from_step:
  "rest \<noteq> [] \<Longrightarrow> ensure_from (Mapping m) (key # rest) c =
     (case map_of m key of
        None \<Rightarrow>
          if c then (case ensure_from (Mapping []) rest c of
                       (res, child) \<Rightarrow> (res, Mapping (AList.update key child m)))
          else (Inl KeyError, Mapping m)
      | Some child0 \<Rightarrow>
          (case ensure_from child0 rest c of
             (res, child) \<Rightarrow> (res, Mapping (AList.update key child m))))"
  by (cases rest) (auto split: option.splits)

lemma ensure_from_last:
  "ensure_from (Mapping m) [final] c =
     (case map_of m final of
        None \<Rightarrow> if c then (Inr [], Mapping (AList.update final (Bucket []) m))
                else (Inl KeyError, Mapping m)
      | Some (Bucket b) \<Rightarrow> (Inr b, Mapping m)
      | Some (Mapping x) \<Rightarrow> (Inl TypeError, Mapping m))"
  by simp

lemma walk_Mapping_Cons:
  "walk (Mapping m) (key # rest) = (case map_of m key of None \<Rightarrow> Inl KeyError | Some child \<Rightarrow> walk child rest)"
  by simp

lemma walk_Bucket_Cons [simp]: "walk (Bucket b) (key # rest) = Inl KeyError"
  by simp

lemma ensure_from_no_create:
  "ensure_from r p False = (res, r') \<Longrightarrow> r' = r"
proof (induction p arbitrary: r res r')
  case Nil
  then show ?case by simp
next
  case (Cons key rest)
  show ?case
  proof (cases r)
    case (Bucket b)
    with Cons.prems show ?thesis by simp
  next
    case (Mapping m)
    show ?thesis
    proof (cases "rest = []")
      case True
      with Cons.prems Mapping show ?thesis
        by (auto split: option.splits node.splits)
    next
      case False
      show ?thesis
      proof (cases "map_of m key")
        case None
        with Cons.prems Mapping False show ?thesis by (simp add: ensure_from_step)
      next
        case (Some child0)
        obtain res0 child where e: "ensure_from child0 rest False = (res0, child)"
          by (cases "ensure_from child0 rest False")
        from Cons.IH[OF e] have "child = child0" .
        with Cons.prems Mapping False Some e show ?thesis
          by (simp add: ensure_from_step update_triv)
      qed
    qed
  qed
qed

lemma ensure_from_cases:
  "ensure_from r p c = (Inr b, r') \<Longrightarrow> (walk r p = Inr (Bucket b) \<and> r' = r) \<or> (b = [] \<and> c)"
proof (induction p arbitrary: r r')
  case Nil
  then show ?case by simp
next
  case (Cons key rest)
  show ?case
  proof (cases r)
    case (Bucket b)
    with Cons.prems show ?thesis by simp
  next
    case (Mapping m)
    show ?thesis
    proof (cases "rest = []")
      case True
      with Cons.prems Mapping show ?thesis
        by (auto split: option.splits node.splits if_splits)
    next
      case False
      show ?thesis
      proof (cases "map_of m key")
        case None
        with Cons.prems Mapping False obtain child where
          "c" "ensure_from (Mapping []) rest c = (Inr b, child)"
          by (auto simp: ensure_from_step split: if_splits prod.splits)
        from Cons.IH[OF this(2)] False this(1) show ?thesis
          by (cases rest) auto
      next
        case (Some child0)
        with Cons.prems Mapping False obtain child where
          e: "ensure_from child0 rest c = (Inr b, child)" and r': "r' = Mapping (AList.update key child m)"
          by (auto simp: ensure_from_step split: prod.splits)
        from Cons.IH[OF e] show ?thesis
          using Mapping Some r' by (auto simp: update_triv)
      qed
    qed
  qed
qed

lemma ensure_from_existing:
  "walk r p = Inr (Bucket b) \<Longrightarrow> p \<noteq> [] \<Longrightarrow> ensure_from r p c = (Inr b, r)"
proof (induction p arbitrary: r)
  case Nil
  then show ?case by simp
next
  case (Cons key rest)
  show ?case
  proof (cases r)
    case (Bucket b)
    with Cons.prems show ?thesis by simp
  next
    case (Mapping m)
    with Cons.prems obtain child where ch: "map_of m key = Some child" "walk child rest = Inr (Bucket b)"
      by (auto split: option.splits)
    show ?thesis
    proof (cases "rest = []")
      case True
      with ch Mapping show ?thesis by simp
    next
      case False
      from Cons.IH[OF ch(2) False] ch Mapping False show ?thesis
        by (simp add: ensure_from_step update_triv)
    qed
  qed
qed

lemma ensure_from_Mapping:
  assumes a: "ensure_from (Mapping m) p c = (res, r')"
  shows "\<exists>m'. r' = Mapping m'"
proof (cases p)
  case Nil
  with a show ?thesis by auto
next
  case (Cons key rest)
  show ?thesis
  proof (cases "rest = []")
    case True
    with a Cons show ?thesis by (auto split: option.splits node.splits if_splits)
  next
    case False
    with a Cons show ?thesis
      by (auto simp: ensure_from_step split: option.splits if_splits prod.splits)
  qed
qed


lemma normalize_path_nonempty: "normalize_path sp p = Inr n \<Longrightarrow> n \<noteq> []"
  by (auto simp: normalize_path_def Let_def split: path_arg.splits sum.splits if_splits)

lemma normalize_path_error: "normalize_path sp p = Inl e \<Longrightarrow> e = ValueError"
  by (auto simp: normalize_path_def py_split_def Let_def split: path_arg.splits sum.splits if_splits)

lemma ensure_bucket_no_create:
  "ensure_bucket p False s = (res, s') \<Longrightarrow> s' = s"
proof -
  assume a: "ensure_bucket p False s = (res, s')"
  show ?thesis
  proof (cases "normalize_path (sep s) p")
    case (Inl e)
    with a show ?thesis by (simp add: ensure_bucket_def)
  next
    case (Inr n)
    obtain r0 r' where e: "ensure_from (root s) n False = (r0, r')"
      by (cases "ensure_from (root s) n False")
    from ensure_from_no_create[OF e] have "r' = root s" .
    with a Inr e show ?thesis
      by (cases r0) (auto simp: ensure_bucket_def)
  qed
qed

lemma remove_object_False_unchanged:
  "remove_object object_name old_path s = (Inr False, s1) \<Longrightarrow> s1 = s"
proof (cases old_path)
  case None
  assume "remove_object object_name old_path s = (Inr False, s1)"
  with None show ?thesis
    by (auto simp: remove_object_def split: option.splits prod.splits sum.splits)
next
  case (Some given)
  assume a: "remove_object object_name old_path s = (Inr False, s1)"
  obtain res s' where e: "ensure_bucket given False s = (res, s')"
    by (cases "ensure_bucket given False s")
  from ensure_bucket_no_create[OF e] have "s' = s" .
  with a Some e show ?thesis
    by (auto simp: remove_object_def split: prod.splits sum.splits error.splits if_splits)
qed


lemma add_object_declined_unchanged:
  assumes a: "add_object p object_name allow_duplicates s = (Inr False, s')"
  shows "s' = s"
proof (cases "normalize_path (sep s) p")
  case (Inl e)
  with a show ?thesis by (simp add: add_object_def ensure_bucket_def)
next
  case (Inr n)
  obtain r0 r' where e: "ensure_from (root s) n True = (r0, r')"
    by (cases "ensure_from (root s) n True")
  show ?thesis
  proof (cases r0)
    case (Inl err)
    with a Inr e show ?thesis by (simp add: add_object_def ensure_bucket_def)
  next
    case (Inr bucket)
    with a \<open>normalize_path (sep s) p = Inr n\<close> e
    have in_b: "object_name \<in> set bucket" and s': "s' = set_root r' s"
      by (auto simp: add_object_def ensure_bucket_def split: if_splits)
    from e Inr have "ensure_from (root s) n True = (Inr bucket, r')" by simp
    from ensure_from_cases[OF this] in_b have "r' = root s" by auto
    with s' show ?thesis by simp
  qed
qed

lemma ensure_bucket_existing:
  assumes "normalize_path (sep s) p = Inr np" and "walk (root s) np = Inr (Bucket b)"
  shows "ensure_bucket p c s = (Inr (np, b), s)"
proof -
  from assms(1) have "np \<noteq> []" by (rule normalize_path_nonempty)
  from ensure_from_existing[OF assms(2) this] assms(1) show ?thesis
    by (simp add: ensure_bucket_def)
qed



lemma sep_write_bucket [simp]: "sep (write_bucket addr b s) = sep s"
  by (simp add: write_bucket_def)








lemma map_of_Some_split:
  "map_of m k = Some c \<Longrightarrow>
     \<exists>m1 m2. m = m1 @ (k, c) # m2 \<and> k \<notin> keys m1 \<and>
       (\<forall>c'. AList.update k c' m = m1 @ (k, c') # m2)"
proof (induction m)
  case Nil
  then show ?case by simp
next
  case (Cons a m)
  obtain k' v' where a: "a = (k', v')" by (cases a)
  show ?case
  proof (cases "k' = k")
    case True
    with Cons.prems a have "a # m = [] @ (k, c) # m \<and> k \<notin> keys [] \<and>
       (\<forall>c'. AList.update k c' (a # m) = [] @ (k, c') # m)"
      by (simp add: keys_def)
    then show ?thesis by blast
  next
    case False
    with Cons.prems a have "map_of m k = Some c" by simp
    from Cons.IH[OF this] obtain m1 m2 where
      m: "m = m1 @ (k, c) # m2" "k \<notin> keys m1" "\<forall>c'. AList.update k c' m = m1 @ (k, c') # m2"
      by blast
    with False a have "a # m = (a # m1) @ (k, c) # m2 \<and> k \<notin> keys (a # m1) \<and>
       (\<forall>c'. AList.update k c' (a # m) = (a # m1) @ (k, c') # m2)"
      by (simp add: keys_def)
    then show ?thesis by blast
  qed
qed

lemma update_new_key:
  "map_of m k = None \<Longrightarrow> AList.update k v m = m @ [(k, v)]"
  by (induction m) (auto split: if_splits)

lemma iter_objects_Mapping_append:
  "iter_objects (Mapping (m1 @ m2)) pre = iter_objects (Mapping m1) pre @ iter_objects (Mapping m2) pre"
  by simp

lemma iter_objects_Mapping_Cons:
  "iter_objects (Mapping ((k, c) # m)) pre = iter_objects c (pre @ [k]) @ iter_objects (Mapping m) pre"
  by simp

lemma iter_objects_Mapping_Nil: "iter_objects (Mapping []) pre = []"
  by simp


lemma iter_update_new:
  "map_of m k = None \<Longrightarrow>
     iter_objects (Mapping (AList.update k v m)) pre =
       iter_objects (Mapping m) pre @ iter_objects v (pre @ [k])"
  by (simp add: update_new_key)

lemma iter_update_existing:
  assumes "map_of m k = Some c"
  shows "\<exists>xs ys. iter_objects (Mapping m) pre = xs @ iter_objects c (pre @ [k]) @ ys \<and>
     (\<forall>v. iter_objects (Mapping (AList.update k v m)) pre = xs @ iter_objects v (pre @ [k]) @ ys)"
proof -
  from map_of_Some_split[OF assms] obtain m1 m2 where
    m: "m = m1 @ (k, c) # m2" and u: "\<forall>c'. AList.update k c' m = m1 @ (k, c') # m2"
    by blast
  have "iter_objects (Mapping m) pre =
      iter_objects (Mapping m1) pre @ iter_objects c (pre @ [k]) @ iter_objects (Mapping m2) pre"
    using m by simp
  moreover have "\<forall>v. iter_objects (Mapping (AList.update k v m)) pre =
      iter_objects (Mapping m1) pre @ iter_objects v (pre @ [k]) @ iter_objects (Mapping m2) pre"
    using u by simp
  ultimately show ?thesis by blast
qed

lemma modify_at_updated:
  "modify_at (Mapping (AList.update key child m)) (key # rest) f =
     Mapping (AList.update key (modify_at child rest f) m)"
  by (simp add: update_conv')

lemma ensure_from_iter:
  assumes "ensure_from r p c = (Inr b, r')"
  shows "\<exists>xs ys. iter_objects r pre = xs @ map (\<lambda>obj. (obj, pre @ p)) b @ ys \<and>
     iter_objects r' pre = iter_objects r pre \<and>
     (\<forall>f. iter_objects (modify_at r' p f) pre = xs @ iter_objects (f (Bucket b)) (pre @ p) @ ys)"
  using assms
proof (induction p arbitrary: r r' pre)
  case Nil
  then show ?case by simp
next
  case (Cons key rest)
  show ?case
  proof (cases r)
    case (Bucket x)
    with Cons.prems show ?thesis by simp
  next
    case (Mapping m)
    show ?thesis
    proof (cases "rest = []")
      case True
      show ?thesis
      proof (cases "map_of m key")
        case None
        with Cons.prems Mapping True have b: "b = []" and r': "r' = Mapping (AList.update key (Bucket []) m)"
          by (auto split: if_splits)
        have "iter_objects r pre = iter_objects r pre @ map (\<lambda>obj. (obj, pre @ key # rest)) b @ []"
          using b by simp
        moreover have "iter_objects r' pre = iter_objects r pre"
          using r' Mapping None by (simp add: iter_update_new del: iter_objects.simps(2))
        moreover have "\<forall>f. iter_objects (modify_at r' (key # rest) f) pre =
            iter_objects r pre @ iter_objects (f (Bucket b)) (pre @ key # rest) @ []"
          using r' Mapping None True b by (simp add: modify_at_updated iter_update_new del: iter_objects.simps(2) modify_at.simps(2))
        ultimately show ?thesis by blast
      next
        case (Some child0)
        with Cons.prems Mapping True have c0: "child0 = Bucket b" and r': "r' = r"
          by (auto split: node.splits)
        from iter_update_existing[OF Some] obtain xs ys where
          i: "iter_objects (Mapping m) pre = xs @ iter_objects child0 (pre @ [key]) @ ys"
          "\<forall>v. iter_objects (Mapping (AList.update key v m)) pre = xs @ iter_objects v (pre @ [key]) @ ys"
          by blast
        have "iter_objects r pre = xs @ map (\<lambda>obj. (obj, pre @ key # rest)) b @ ys"
          using i(1) c0 Mapping True by (simp del: iter_objects.simps(2))
        moreover have "\<forall>f. iter_objects (modify_at r' (key # rest) f) pre =
            xs @ iter_objects (f (Bucket b)) (pre @ key # rest) @ ys"
          using i(2) r' Mapping Some c0 True by (simp del: iter_objects.simps(2))
        ultimately show ?thesis using r' by blast
      qed
    next
      case False
      show ?thesis
      proof (cases "map_of m key")
        case None
        with Cons.prems Mapping False obtain child where
          e: "ensure_from (Mapping []) rest c = (Inr b, child)" and
          r': "r' = Mapping (AList.update key child m)"
          by (auto simp: ensure_from_step split: if_splits prod.splits)
        from Cons.IH[OF e, of "pre @ [key]"] obtain xs0 ys0 where
          i: "iter_objects (Mapping []) (pre @ [key]) = xs0 @ map (\<lambda>obj. (obj, (pre @ [key]) @ rest)) b @ ys0"
          "iter_objects child (pre @ [key]) = iter_objects (Mapping []) (pre @ [key])"
          "\<forall>f. iter_objects (modify_at child rest f) (pre @ [key]) =
              xs0 @ iter_objects (f (Bucket b)) ((pre @ [key]) @ rest) @ ys0"
          by blast
        from i(1) have z: "xs0 = []" "ys0 = []" "b = []" by simp_all
        have "iter_objects r pre = iter_objects r pre @ map (\<lambda>obj. (obj, pre @ key # rest)) b @ []"
          using z by simp
        moreover have "iter_objects r' pre = iter_objects r pre"
          using r' Mapping None i(2) by (simp add: iter_update_new iter_objects_Mapping_Nil del: iter_objects.simps(2))
        moreover have "\<forall>f. iter_objects (modify_at r' (key # rest) f) pre =
            iter_objects r pre @ iter_objects (f (Bucket b)) (pre @ key # rest) @ []"
          using r' Mapping None i(3) z by (simp add: modify_at_updated iter_update_new del: iter_objects.simps(2) modify_at.simps(2))
        ultimately show ?thesis by blast
      next
        case (Some child0)
        with Cons.prems Mapping False obtain child where
          e: "ensure_from child0 rest c = (Inr b, child)" and
          r': "r' = Mapping (AList.update key child m)"
          by (auto simp: ensure_from_step split: prod.splits)
        from Cons.IH[OF e, of "pre @ [key]"] obtain xs0 ys0 where
          i: "iter_objects child0 (pre @ [key]) = xs0 @ map (\<lambda>obj. (obj, (pre @ [key]) @ rest)) b @ ys0"
          "iter_objects child (pre @ [key]) = iter_objects child0 (pre @ [key])"
          "\<forall>f. iter_objects (modify_at child rest f) (pre @ [key]) =
              xs0 @ iter_objects (f (Bucket b)) ((pre @ [key]) @ rest) @ ys0"
          by blast
        from iter_update_existing[OF Some] obtain xs ys where
          j: "iter_objects (Mapping m) pre = xs @ iter_objects child0 (pre @ [key]) @ ys"
          "\<forall>v. iter_objects (Mapping (AList.update key v m)) pre = xs @ iter_objects v (pre @ [key]) @ ys"
          by blast
        have "iter_objects r pre = (xs @ xs0) @ map (\<lambda>obj. (obj, pre @ key # rest)) b @ (ys0 @ ys)"
          using i(1) j(1) Mapping by (simp del: iter_objects.simps(2))
        moreover have "iter_objects r' pre = iter_objects r pre"
          using r' Mapping i(2) j by (simp del: iter_objects.simps(2))
        moreover have "\<forall>f. iter_objects (modify_at r' (key # rest) f) pre =
            (xs @ xs0) @ iter_objects (f (Bucket b)) (pre @ key # rest) @ (ys0 @ ys)"
          using r' i(3) j(2) by (simp add: modify_at_updated del: iter_objects.simps(2) modify_at.simps(2))
        ultimately show ?thesis by blast
      qed
    qed
  qed
qed

lemma modify_at_Mapping:
  "p \<noteq> [] \<Longrightarrow> \<exists>m'. modify_at (Mapping m) p f = Mapping m'"
  by (cases p) (auto split: option.splits)

lemma root_write_bucket:
  "addr \<noteq> [] \<Longrightarrow> root (write_bucket addr b s) = modify_at (root s) addr (\<lambda>old. Bucket b)"
proof -
  assume "addr \<noteq> []"
  from modify_at_Mapping[OF this] obtain m' where
    "modify_at (Mapping (data s)) addr (\<lambda>old. Bucket b) = Mapping m'" by blast
  then show ?thesis by (simp add: write_bucket_def root_def set_root_def)
qed

lemma ensure_bucket_Inr:
  assumes "ensure_bucket p c s = (Inr (addr, b), s1)"
  shows "normalize_path (sep s) p = Inr addr \<and> addr \<noteq> [] \<and>
     ensure_from (root s) addr c = (Inr b, root s1) \<and> sep s1 = sep s"
proof (cases "normalize_path (sep s) p")
  case (Inl e)
  with assms show ?thesis by (simp add: ensure_bucket_def)
next
  case (Inr n)
  obtain r0 r' where e: "ensure_from (root s) n c = (r0, r')"
    by (cases "ensure_from (root s) n c")
  from e obtain m' where m': "r' = Mapping m'"
    using ensure_from_Mapping[of "data s" n c r0 r'] by (auto simp: root_def)
  from assms Inr e m' have "addr = n" "r0 = Inr b" "s1 = set_root (Mapping m') s"
    by (auto simp: ensure_bucket_def split: sum.splits)
  with Inr e m' normalize_path_nonempty[OF Inr] show ?thesis by simp
qed

lemma find_name_in_bucket:
  "n \<in> set b \<Longrightarrow>
     map_option snd (find (\<lambda>(a, q). a = n) (map (\<lambda>obj. (obj, np)) b @ ys)) = Some np"
  by (induction b) auto

lemma find_name_append:
  "map_option snd (find (\<lambda>(a, q). a = n) (xs @ zs)) =
     (case map_option snd (find (\<lambda>(a, q). a = n) xs) of
        Some q \<Rightarrow> Some q
      | None \<Rightarrow> map_option snd (find (\<lambda>(a, q). a = n) zs))"
  by (induction xs) auto

text \<open>
  C5 (amended). \<open>find_object\<close> returns the first path, in traversal order, whose bucket
  holds the name. After an \<open>add_object\<close> that raises nothing it returns the path of the
  addition when the name was not in the index before, or was first found at that same
  path.
\<close>

theorem add_object_then_find_object:
  assumes add: "add_object p object_name allow_duplicates s = (Inr added, s')"
    and np: "normalize_path (sep s) p = Inr np"
    and first: "find_object s object_name = None \<or> find_object s object_name = Some np"
  shows "find_object s' object_name = Some np"
proof -
  obtain res s1 where e: "ensure_bucket p True s = (res, s1)"
    by (cases "ensure_bucket p True s")
  with add obtain addr b where res: "res = Inr (addr, b)"
    by (cases res) (auto simp: add_object_def)
  from ensure_bucket_Inr[OF e[unfolded res]] np
  have addr: "addr = np" "np \<noteq> []" and ef: "ensure_from (root s) np True = (Inr b, root s1)"
    by simp_all
  from ensure_from_iter[OF ef, of "[]"] obtain xs ys where
    i: "iter_objects (root s) [] = xs @ map (\<lambda>obj. (obj, np)) b @ ys"
      "iter_objects (root s1) [] = iter_objects (root s) []"
      "\<forall>f. iter_objects (modify_at (root s1) np f) [] = xs @ iter_objects (f (Bucket b)) np @ ys"
    by auto
  let ?first = "\<lambda>l. map_option snd (find (\<lambda>(a, q). a = object_name) l)"
  have old: "?first (xs @ map (\<lambda>obj. (obj, np)) b @ ys) = None \<or>
             ?first (xs @ map (\<lambda>obj. (obj, np)) b @ ys) = Some np"
    using first i(1) by (simp add: find_object_def iter_object_paths_def)
  have in_xs: "?first xs = None \<or> ?first xs = Some np"
    using old by (cases "?first xs") (simp_all add: find_name_append)
  show ?thesis
  proof (cases "\<not> allow_duplicates \<and> object_name \<in> set b")
    case True
    with add e res have "s' = s1" by (simp add: add_object_def)
    then have "find_object s' object_name = ?first (xs @ map (\<lambda>obj. (obj, np)) b @ ys)"
      using i(1,2) by (simp add: find_object_def iter_object_paths_def)
    also have "\<dots> = Some np"
      using in_xs True by (auto simp: find_name_append[of _ xs] find_name_in_bucket)
    finally show ?thesis .
  next
    case False
    with add e res addr have "s' = write_bucket np (b @ [object_name]) s1"
      by (auto simp: add_object_def)
    then have "root s' = modify_at (root s1) np (\<lambda>old. Bucket (b @ [object_name]))"
      using addr(2) by (simp add: root_write_bucket)
    then have "iter_objects (root s') [] = xs @ map (\<lambda>obj. (obj, np)) (b @ [object_name]) @ ys"
      using i(3) by simp
    then have "find_object s' object_name =
        ?first (xs @ map (\<lambda>obj. (obj, np)) (b @ [object_name]) @ ys)"
      by (simp add: find_object_def iter_object_paths_def)
    also have "\<dots> = Some np"
      using in_xs find_name_in_bucket[of object_name "b @ [object_name]" np ys]
      by (auto simp: find_name_append[of _ xs])
    finally show ?thesis .
  qed
qed

text \<open>
  The addition of the test suite, on a smaller index: a new name, in a bucket that the
  addition creates.
\<close>

theorem add_object_then_find_object_witness:
  "find_object \<lparr>data = [(''Kitchen'', Mapping [(''Drawers'', Mapping [(''Top'', Bucket [''knives''])])])], sep = ''/''\<rparr>
      ''thermometer'' = None \<and>
   find_object (snd (add_object (PStr ''Kitchen/Benches/Prep'') ''thermometer'' False
      \<lparr>data = [(''Kitchen'', Mapping [(''Drawers'', Mapping [(''Top'', Bucket [''knives''])])])], sep = ''/''\<rparr>))
      ''thermometer'' = Some [''Kitchen'', ''Benches'', ''Prep'']"
proof -
  let ?s = "\<lparr>data = [(''Kitchen'', Mapping [(''Drawers'', Mapping [(''Top'', Bucket [''knives''])])])], sep = ''/''\<rparr>"
  let ?s' = "\<lparr>data = [(''Kitchen'', Mapping [(''Drawers'', Mapping [(''Top'', Bucket [''knives''])]),
      (''Benches'', Mapping [(''Prep'', Bucket [''thermometer''])])])], sep = ''/''\<rparr>"
  have a: "add_object (PStr ''Kitchen/Benches/Prep'') ''thermometer'' False ?s = (Inr True, ?s')"
    by code_simp
  have n: "normalize_path (sep ?s) (PStr ''Kitchen/Benches/Prep'') = Inr [''Kitchen'', ''Benches'', ''Prep'']"
    by code_simp
  have f: "find_object ?s ''thermometer'' = None" by code_simp
  from add_object_then_find_object[OF a n] f
  have "find_object ?s' ''thermometer'' = Some [''Kitchen'', ''Benches'', ''Prep'']" by blast
  with a f show ?thesis by simp
qed

text \<open>
  C5, as stated, fails: the name is already in a bucket that the traversal reaches
  first, and \<open>find_object\<close> returns that path, not the path of the addition.
\<close>

theorem add_object_then_find_object_counterexample:
  "add_object (PSeq [''B'']) ''x'' False \<lparr>data = [(''A'', Bucket [''x''])], sep = ''/''\<rparr>
     = (Inr True, \<lparr>data = [(''A'', Bucket [''x'']), (''B'', Bucket [''x''])], sep = ''/''\<rparr>) \<and>
   find_object \<lparr>data = [(''A'', Bucket [''x'']), (''B'', Bucket [''x''])], sep = ''/''\<rparr> ''x''
     = Some [''A'']"
  by code_simp

lemma walk_append:
  "walk r (a @ b) = (case walk r a of Inl e \<Rightarrow> Inl e | Inr x \<Rightarrow> walk x b)"
proof (induction a arbitrary: r)
  case Nil
  show ?case by simp
next
  case (Cons k a)
  show ?case
  proof (cases r)
    case (Bucket x)
    then show ?thesis by simp
  next
    case (Mapping m)
    then show ?thesis using Cons.IH by (cases "map_of m k") simp_all
  qed
qed

lemma walk_error: "walk r p = Inl e \<Longrightarrow> e = KeyError"
proof (induction p arbitrary: r)
  case Nil
  then show ?case by simp
next
  case (Cons k p)
  then show ?case
    by (cases r) (auto split: option.splits)
qed

lemma wf_node_child:
  "wf_node (Mapping m) \<Longrightarrow> map_of m k = Some c \<Longrightarrow> wf_node c"
  by (auto dest: map_of_SomeD)

lemma set_update_subset: "set (AList.update k v m) \<subseteq> insert (k, v) (set m)"
  by (induction m) auto

lemma wf_node_update:
  "wf_node (Mapping m) \<Longrightarrow> wf_node v \<Longrightarrow> wf_node (Mapping (AList.update k v m))"
  using set_update_subset[of k v m] by (auto simp: distinct_update)

lemma set_delete_subset: "set (AList.delete k m) \<subseteq> set m"
  by (auto simp: AList.delete_eq)

lemma wf_node_delete:
  "wf_node (Mapping m) \<Longrightarrow> wf_node (Mapping (AList.delete k m))"
  using set_delete_subset[of k m] by (auto simp: distinct_delete)

lemma wf_node_pop_key: "wf_node x \<Longrightarrow> wf_node (pop_key k x)"
  by (cases x) (simp_all add: pop_key_def wf_node_delete del: wf_node.simps(2))

lemma wf_node_modify_at:
  "wf_node r \<Longrightarrow> (\<And>x. wf_node x \<Longrightarrow> wf_node (f x)) \<Longrightarrow> wf_node (modify_at r p f)"
proof (induction p arbitrary: r)
  case Nil
  then show ?case by simp
next
  case (Cons k p)
  show ?case
  proof (cases r)
    case (Bucket x)
    then show ?thesis by simp
  next
    case (Mapping m)
    show ?thesis
    proof (cases "map_of m k")
      case None
      with Mapping Cons.prems(1) show ?thesis by simp
    next
      case (Some c)
      from Cons.prems(1) Mapping Some have "wf_node c" by (simp add: wf_node_child del: wf_node.simps(2))
      from Cons.IH[OF this Cons.prems(2)] have "wf_node (modify_at c p f)" .
      with Cons.prems(1) Mapping Some show ?thesis
        by (simp add: wf_node_update del: wf_node.simps(2))
    qed
  qed
qed

lemma wf_node_pop_at: "wf_node r \<Longrightarrow> wf_node (pop_at r addr key)"
  by (simp add: pop_at_def wf_node_modify_at wf_node_pop_key)

lemma iter_objects_walk:
  "wf_node r \<Longrightarrow> (n, q) \<in> set (iter_objects r pre) \<Longrightarrow>
     \<exists>p b. q = pre @ p \<and> walk r p = Inr (Bucket b) \<and> n \<in> set b"
proof (induction r pre arbitrary: q rule: iter_objects.induct)
  case (1 b p)
  then have "q = p @ [] \<and> walk (Bucket b) [] = Inr (Bucket b) \<and> n \<in> set b" by auto
  then show ?case by blast
next
  case (2 m p)
  from "2.prems"(2) obtain key child where
    kc: "(key, child) \<in> set m" and i: "(n, q) \<in> set (iter_objects child (p @ [key]))"
    by auto
  from "2.prems"(1) kc have wfc: "wf_node child" and mo: "map_of m key = Some child"
    by auto
  from "2.IH"[OF kc refl wfc i] obtain p' b where
    "q = (p @ [key]) @ p'" "walk child p' = Inr (Bucket b)" "n \<in> set b" by blast
  with mo have "q = p @ (key # p') \<and> walk (Mapping m) (key # p') = Inr (Bucket b) \<and> n \<in> set b"
    by simp
  then show ?case by blast
qed

lemma iter_objects_empty: "node_empty x \<Longrightarrow> iter_objects x pre = []"
  by (cases x) simp_all

lemma delete_append: "AList.delete k (a @ b) = AList.delete k a @ AList.delete k b"
  by (simp add: AList.delete_eq)

lemma delete_distinct_split:
  "distinct (map fst (m1 @ (k, c) # m2)) \<Longrightarrow> AList.delete k (m1 @ (k, c) # m2) = m1 @ m2"
  by (simp add: delete_append)

lemma iter_pop_at_empty:
  "wf_node r \<Longrightarrow> walk r (addr @ [key]) = Inr child \<Longrightarrow> node_empty child \<Longrightarrow>
     iter_objects (pop_at r addr key) pre = iter_objects r pre"
proof (induction addr arbitrary: r pre)
  case Nil
  then obtain m where m: "r = Mapping m" and mo: "map_of m key = Some child"
    by (cases r) (auto split: option.splits)
  from map_of_Some_split[OF mo] obtain m1 m2 where sp: "m = m1 @ (key, child) # m2" by blast
  from Nil.prems(1) m sp have "AList.delete key m = m1 @ m2"
    using delete_distinct_split[of m1 key child m2] by simp
  with m sp Nil.prems(3) show ?case
    by (simp add: pop_at_def pop_key_def iter_objects_empty)
next
  case (Cons a addr)
  from Cons.prems(2) obtain m c where m: "r = Mapping m" and mo: "map_of m a = Some c"
    and w: "walk c (addr @ [key]) = Inr child"
    by (cases r) (auto split: option.splits)
  from Cons.prems(1) m mo have wfc: "wf_node c" by (simp add: wf_node_child del: wf_node.simps(2))
  from iter_update_existing[OF mo, of pre] obtain xs ys where
    i: "iter_objects (Mapping m) pre = xs @ iter_objects c (pre @ [a]) @ ys"
    "\<forall>v. iter_objects (Mapping (AList.update a v m)) pre = xs @ iter_objects v (pre @ [a]) @ ys"
    by blast
  have "pop_at r (a # addr) key = Mapping (AList.update a (pop_at c addr key) m)"
    using m mo by (simp add: pop_at_def)
  with i Cons.IH[OF wfc w Cons.prems(3), of "pre @ [a]"] m show ?case
    by (simp del: iter_objects.simps(2))
qed

lemma prune_loop_iter:
  "wf_node r \<Longrightarrow> iter_objects (prune_loop r ps) pre = iter_objects r pre"
proof (induction ps arbitrary: r)
  case Nil
  show ?case by simp
next
  case (Cons ak ps)
  obtain addr key where ak: "ak = (addr, key)" by (cases ak)
  show ?case
  proof (cases "walk r (addr @ [key])")
    case (Inl e)
    with ak show ?thesis by simp
  next
    case (Inr child)
    show ?thesis
    proof (cases "node_empty child")
      case True
      from Cons.IH[OF wf_node_pop_at[OF Cons.prems], of addr key]
        iter_pop_at_empty[OF Cons.prems Inr True] ak Inr True
      show ?thesis by simp
    next
      case False
      with ak Inr show ?thesis by simp
    qed
  qed
qed

lemma prune_tree_iter:
  assumes "wf_node r"
  shows "iter_objects (prune_tree r np) pre = iter_objects r pre"
proof (cases "collect_parents r [] (butlast np)")
  case None
  then show ?thesis by (simp add: prune_tree_def)
next
  case (Some parents)
  show ?thesis
  proof (cases "walk r (butlast np)")
    case (Inl e)
    with Some show ?thesis by (simp add: prune_tree_def)
  next
    case (Inr cur)
    show ?thesis
    proof (cases cur)
      case (Bucket b)
      with Some Inr show ?thesis by (simp add: prune_tree_def)
    next
      case (Mapping current)
      let ?popped = "pop_at r (butlast np) (last np)"
      have pt: "prune_tree r np =
          prune_loop (case map_of current (last np) of
                        Some (Bucket []) \<Rightarrow> ?popped
                      | Some leaf \<Rightarrow> r
                      | None \<Rightarrow> r) (rev parents)"
        using Some Inr Mapping by (simp add: prune_tree_def)
      show ?thesis
      proof (cases "map_of current (last np) = Some (Bucket [])")
        case True
        with Inr Mapping have "walk r (butlast np @ [last np]) = Inr (Bucket [])"
          by (simp add: walk_append)
        from iter_pop_at_empty[OF assms this] have "iter_objects ?popped pre = iter_objects r pre"
          by simp
        with pt True prune_loop_iter[OF wf_node_pop_at[OF assms]] show ?thesis by simp
      next
        case False
        then have "(case map_of current (last np) of
                        Some (Bucket []) \<Rightarrow> ?popped
                      | Some leaf \<Rightarrow> r
                      | None \<Rightarrow> r) = r"
          by (auto split: option.splits node.splits list.splits)
        with pt prune_loop_iter[OF assms] show ?thesis by simp
      qed
    qed
  qed
qed

lemma pop_at_Mapping: "\<exists>m'. pop_at (Mapping m) addr key = Mapping m'"
proof (cases addr)
  case Nil
  then show ?thesis by (simp add: pop_at_def pop_key_def)
next
  case (Cons a as)
  then show ?thesis using modify_at_Mapping[of addr m "pop_key key"] by (simp add: pop_at_def)
qed

lemma prune_loop_Mapping: "\<exists>m'. prune_loop (Mapping m) ps = Mapping m'"
proof (induction ps arbitrary: m)
  case Nil
  show ?case by simp
next
  case (Cons ak ps)
  obtain addr key where ak: "ak = (addr, key)" by (cases ak)
  obtain m1 where p: "pop_at (Mapping m) addr key = Mapping m1"
    using pop_at_Mapping by blast
  from Cons.IH[of m1] p ak show ?case
    by (auto split: sum.splits)
qed

lemma prune_tree_Mapping: "\<exists>m'. prune_tree (Mapping m) np = Mapping m'"
proof -
  obtain m1 where p: "pop_at (Mapping m) (butlast np) (last np) = Mapping m1"
    using pop_at_Mapping by blast
  have "\<exists>r1. prune_tree (Mapping m) np = Mapping m \<or>
      ((r1 = Mapping m \<or> r1 = Mapping m1) \<and> (\<exists>ps. prune_tree (Mapping m) np = prune_loop r1 ps))"
    using p
    by (simp add: prune_tree_def Let_def split: option.splits sum.splits node.splits list.splits)
      blast
  then show ?thesis
    using prune_loop_Mapping[of m] prune_loop_Mapping[of m1] by auto
qed

lemma root_prune_empty_branch:
  "prune_empty_branch p s = (Inr u, s') \<Longrightarrow> normalize_path (sep s) p = Inr np \<Longrightarrow>
     root s' = prune_tree (root s) np \<and> sep s' = sep s"
proof -
  assume a: "prune_empty_branch p s = (Inr u, s')" and n: "normalize_path (sep s) p = Inr np"
  obtain m' where "prune_tree (Mapping (data s)) np = Mapping m'"
    using prune_tree_Mapping by blast
  with a n show ?thesis
    by (auto simp: prune_empty_branch_def root_def set_root_def)
qed

lemma filter_name_bucket:
  "filter (\<lambda>(a, q). a = n) (map (\<lambda>obj. (obj, p)) b) = map (\<lambda>obj. (obj, p)) (filter (\<lambda>obj. obj = n) b)"
  by (induction b) auto

lemma filter_remove1_name:
  "n \<in> set b \<Longrightarrow> length (filter (\<lambda>obj. obj = n) b) = Suc (length (filter (\<lambda>obj. obj = n) (remove1 n b)))"
  by (induction b) auto

lemma single_occurrence_removed:
  assumes "filter (\<lambda>(a, q). a = n) (xs @ map (\<lambda>obj. (obj, p)) b @ ys) = [x]" and "n \<in> set b"
  shows "filter (\<lambda>(a, q). a = n) (xs @ map (\<lambda>obj. (obj, p)) (remove1 n b) @ ys) = []"
proof -
  let ?P = "\<lambda>(a, q). a = n"
  from assms(1) have "length (filter ?P (xs @ map (\<lambda>obj. (obj, p)) b @ ys)) = 1"
    by simp
  then have "length (filter ?P xs) + length (filter (\<lambda>obj. obj = n) b) + length (filter ?P ys) = 1"
    by (simp add: filter_name_bucket)
  with filter_remove1_name[OF assms(2)]
  have "length (filter ?P xs) = 0" "length (filter (\<lambda>obj. obj = n) (remove1 n b)) = 0"
    "length (filter ?P ys) = 0"
    by simp_all
  then show ?thesis by (simp add: filter_name_bucket)
qed

lemma find_of_filter:
  "filter P l = x # xs \<Longrightarrow> find P l = Some x"
  by (induction l) (auto split: if_splits)

lemma find_Some_mem: "find P l = Some x \<Longrightarrow> x \<in> set l \<and> P x"
  by (induction l) (auto split: if_splits)

lemma wf_write_bucket: "wf_index s \<Longrightarrow> addr \<noteq> [] \<Longrightarrow> wf_index (write_bucket addr b s)"
  by (simp add: wf_index_def root_write_bucket wf_node_modify_at)

lemma remove_object_first_match:
  assumes wf: "wf_index s" and f: "find_object s object_name = Some match"
  shows "\<exists>b xs ys. walk (root s) match = Inr (Bucket b) \<and> object_name \<in> set b \<and> match \<noteq> [] \<and>
     iter_object_paths s = xs @ map (\<lambda>obj. (obj, match)) b @ ys \<and>
     (\<exists>s1. remove_object object_name None s = (Inr True, s1) \<and> sep s1 = sep s \<and>
        iter_object_paths s1 = xs @ map (\<lambda>obj. (obj, match)) (remove1 object_name b) @ ys)"
proof -
  from f obtain x where x: "find (\<lambda>(a, q). a = object_name) (iter_object_paths s) = Some x"
    "snd x = match"
    by (auto simp: find_object_def)
  from find_Some_mem[OF x(1)] have "x \<in> set (iter_object_paths s)" "fst x = object_name"
    by (auto split: prod.splits)
  with x(2) have mem: "(object_name, match) \<in> set (iter_objects (root s) [])"
    by (cases x) (simp add: iter_object_paths_def)
  from iter_objects_walk[OF wf[unfolded wf_index_def] mem] obtain b where
    w: "walk (root s) match = Inr (Bucket b)" and inb: "object_name \<in> set b"
    by auto
  have ne: "match \<noteq> []" using w by (auto simp: root_def)
  have n: "normalize_path (sep s) (PSeq match) = Inr match"
    using ne by (simp add: normalize_path_def)
  have eb: "ensure_bucket (PSeq match) False s = (Inr (match, b), s)"
    using ensure_bucket_existing[OF n w] .
  from ensure_bucket_Inr[OF eb] have ef: "ensure_from (root s) match False = (Inr b, root s)"
    by simp
  from ensure_from_iter[OF ef, of "[]"] obtain xs ys where
    i: "iter_objects (root s) [] = xs @ map (\<lambda>obj. (obj, match)) b @ ys"
      "\<forall>f. iter_objects (modify_at (root s) match f) [] = xs @ iter_objects (f (Bucket b)) match @ ys"
    by auto
  let ?sw = "write_bucket match (remove1 object_name b) s"
  have rw: "root ?sw = modify_at (root s) match (\<lambda>old. Bucket (remove1 object_name b))"
    using ne by (rule root_write_bucket)
  have wfw: "wf_node (root ?sw)" using wf_write_bucket[OF wf ne] by (simp add: wf_index_def)
  have nw: "normalize_path (sep ?sw) (PSeq match) = Inr match" using n by simp
  obtain s1 where pe: "prune_empty_branch (PSeq match) ?sw = (Inr (), s1)"
    using nw by (simp add: prune_empty_branch_def)
  from root_prune_empty_branch[OF pe nw] have r1: "root s1 = prune_tree (root ?sw) match"
    and sp: "sep s1 = sep s" by simp_all
  have it: "iter_object_paths s1 = xs @ map (\<lambda>obj. (obj, match)) (remove1 object_name b) @ ys"
    using r1 prune_tree_iter[OF wfw, of match "[]"] rw i(2)
    by (simp add: iter_object_paths_def)
  have "remove_object object_name None s = (Inr True, s1)"
    using f eb inb pe by (simp add: remove_object_def remove_from_def)
  with w inb ne i(1) sp it show ?thesis
    by (auto simp: iter_object_paths_def)
qed

text \<open>
  C4 (amended). \<open>move_object\<close> without an old path takes the name out of the first
  bucket that holds it, once. When the name is stored exactly once in the whole index
  and duplicates are not allowed, a move that returns \<open>True\<close> leaves it stored exactly
  once, in the bucket at the new path.
\<close>

theorem move_object_single_occurrence:
  assumes wf: "wf_index s"
    and once: "occurrences s object_name = [(object_name, old_place)]"
    and mv: "move_object object_name new_path None False s = (Inr True, s')"
    and np: "normalize_path (sep s) new_path = Inr np"
  shows "occurrences s' object_name = [(object_name, np)]"
proof -
  let ?P = "\<lambda>(a, q). a = object_name"
  from once have "find ?P (iter_object_paths s) = Some (object_name, old_place)"
    by (simp add: occurrences_def find_of_filter)
  then have f: "find_object s object_name = Some old_place"
    by (simp add: find_object_def)
  from remove_object_first_match[OF wf f] obtain b xs ys s1 where
    inb: "object_name \<in> set b" and
    i0: "iter_object_paths s = xs @ map (\<lambda>obj. (obj, old_place)) b @ ys" and
    rm: "remove_object object_name None s = (Inr True, s1)" and sp: "sep s1 = sep s" and
    i1: "iter_object_paths s1 = xs @ map (\<lambda>obj. (obj, old_place)) (remove1 object_name b) @ ys"
    by blast
  from once i0 have "filter ?P (xs @ map (\<lambda>obj. (obj, old_place)) b @ ys) = [(object_name, old_place)]"
    by (simp add: occurrences_def)
  from single_occurrence_removed[OF this inb] i1
  have gone: "filter ?P (iter_object_paths s1) = []" by simp
  from mv rm obtain added where add: "add_object new_path object_name False s1 = (Inr added, s')"
    by (auto simp: move_object_def split: prod.splits sum.splits)
  obtain res s2 where e: "ensure_bucket new_path True s1 = (res, s2)"
    by (cases "ensure_bucket new_path True s1")
  with add obtain addr b' where res: "res = Inr (addr, b')"
    by (cases res) (auto simp: add_object_def)
  from ensure_bucket_Inr[OF e[unfolded res]] np sp
  have addr: "addr = np" "np \<noteq> []" and ef: "ensure_from (root s1) np True = (Inr b', root s2)"
    by simp_all
  from ensure_from_iter[OF ef, of "[]"] obtain xs' ys' where
    j: "iter_objects (root s1) [] = xs' @ map (\<lambda>obj. (obj, np)) b' @ ys'"
      "\<forall>f. iter_objects (modify_at (root s2) np f) [] = xs' @ iter_objects (f (Bucket b')) np @ ys'"
    by auto
  from gone j(1) have none: "filter ?P xs' = []" "filter (\<lambda>obj. obj = object_name) b' = []"
    "filter ?P ys' = []"
    by (simp_all add: iter_object_paths_def filter_name_bucket)
  from none(2) have notin: "object_name \<notin> set b'"
    by (auto simp: filter_empty_conv)
  with add e res addr have "s' = write_bucket np (b' @ [object_name]) s2"
    by (auto simp: add_object_def)
  then have "root s' = modify_at (root s2) np (\<lambda>old. Bucket (b' @ [object_name]))"
    using addr(2) by (simp add: root_write_bucket)
  with j(2) have "iter_object_paths s' = xs' @ map (\<lambda>obj. (obj, np)) (b' @ [object_name]) @ ys'"
    by (simp add: iter_object_paths_def)
  with none show ?thesis
    by (simp add: occurrences_def filter_name_bucket)
qed

text \<open>
  The move of the test suite, on a smaller index: \<open>dish_soap\<close> leaves its only bucket,
  which is pruned.
\<close>

theorem move_object_single_occurrence_witness:
  "occurrences (snd (move_object ''dish_soap'' (PSeq [''Kitchen'', ''Cabinets'']) None False
      \<lparr>data = [(''Kitchen'', Mapping [(''Zones'', Mapping [(''Left_of_Sink'', Bucket [''dish_soap'']),
                  (''Right_of_Sink'', Bucket [])])])], sep = ''/''\<rparr>)) ''dish_soap''
     = [(''dish_soap'', [''Kitchen'', ''Cabinets''])]"
proof -
  let ?s = "\<lparr>data = [(''Kitchen'', Mapping [(''Zones'', Mapping [(''Left_of_Sink'', Bucket [''dish_soap'']),
                  (''Right_of_Sink'', Bucket [])])])], sep = ''/''\<rparr>"
  let ?s' = "\<lparr>data = [(''Kitchen'', Mapping [(''Zones'', Mapping [(''Right_of_Sink'', Bucket [])]),
                  (''Cabinets'', Bucket [''dish_soap''])])], sep = ''/''\<rparr>"
  have w: "wf_index ?s" by code_simp
  have o: "occurrences ?s ''dish_soap'' = [(''dish_soap'', [''Kitchen'', ''Zones'', ''Left_of_Sink''])]"
    by code_simp
  have m: "move_object ''dish_soap'' (PSeq [''Kitchen'', ''Cabinets'']) None False ?s = (Inr True, ?s')"
    by code_simp
  have n: "normalize_path (sep ?s) (PSeq [''Kitchen'', ''Cabinets'']) = Inr [''Kitchen'', ''Cabinets'']"
    by code_simp
  from move_object_single_occurrence[OF w o m n] m show ?thesis by simp
qed

text \<open>
  C4, as stated, fails when the name is stored in more than one bucket: the move takes
  it out of the first bucket only, and the second bucket still holds it.
\<close>

theorem move_object_leaves_second_copy_counterexample:
  "move_object ''x'' (PSeq [''C'']) None False
      \<lparr>data = [(''A'', Bucket [''x'']), (''B'', Bucket [''x''])], sep = ''/''\<rparr>
     = (Inr True, \<lparr>data = [(''B'', Bucket [''x'']), (''C'', Bucket [''x''])], sep = ''/''\<rparr>) \<and>
   get_path \<lparr>data = [(''A'', Bucket [''x'']), (''B'', Bucket [''x''])], sep = ''/''\<rparr> (PSeq [''B'']) None
     = Inr (Some (Bucket [''x''])) \<and>
   get_path \<lparr>data = [(''B'', Bucket [''x'']), (''C'', Bucket [''x''])], sep = ''/''\<rparr> (PSeq [''B'']) None
     = Inr (Some (Bucket [''x'']))"
  by code_simp

lemma walk_modify_at:
  "walk r q = Inr x \<Longrightarrow> walk (modify_at r q f) q = Inr (f x)"
proof (induction q arbitrary: r)
  case Nil
  then show ?case by simp
next
  case (Cons k q)
  from Cons.prems obtain m c where m: "r = Mapping m" "map_of m k = Some c" "walk c q = Inr x"
    by (cases r) (auto split: option.splits)
  from Cons.IH[OF m(3)] m show ?case by (simp add: update_conv')
qed

lemma pop_after_modify_below:
  "modify_at (modify_at r (q @ [k]) g) q (pop_key k) = modify_at r q (pop_key k)"
proof (induction q arbitrary: r)
  case Nil
  show ?case
  proof (cases r)
    case (Bucket b)
    then show ?thesis by simp
  next
    case (Mapping m)
    then show ?thesis
      by (cases "map_of m k") (simp_all add: pop_key_def delete_update_same)
  qed
next
  case (Cons a q)
  show ?case
  proof (cases r)
    case (Bucket b)
    then show ?thesis by simp
  next
    case (Mapping m)
    show ?thesis
    proof (cases "map_of m a")
      case None
      with Mapping show ?thesis by simp
    next
      case (Some c)
      with Mapping Cons.IH[of c] show ?thesis by (simp add: update_conv')
    qed
  qed
qed

lemma detach_after_write:
  "q \<noteq> [] \<Longrightarrow> detach (modify_at r q g) q = detach r q"
  using pop_after_modify_below[of r "butlast q" "last q" g]
  by (simp add: detach_def pop_at_def)

lemma collect_parents_walk:
  "walk cur q = Inr x \<Longrightarrow> collect_parents cur addr q = Some (parents_of addr q)"
proof (induction q arbitrary: cur addr)
  case Nil
  show ?case by simp
next
  case (Cons k q)
  from Cons.prems obtain m c where m: "cur = Mapping m" "map_of m k = Some c" "walk c q = Inr x"
    by (cases cur) (auto split: option.splits)
  from Cons.IH[OF m(3), of "addr @ [k]"] m show ?case by simp
qed

lemma parents_of_snoc:
  "parents_of addr (ks @ [k]) = parents_of addr ks @ [(addr @ ks, k)]"
  by (induction ks arbitrary: addr) simp_all

lemma walk_snoc_Inr:
  assumes "walk r (q @ [k]) = Inr x"
  shows "\<exists>m. walk r q = Inr (Mapping m) \<and> map_of m k = Some x"
proof (cases "walk r q")
  case (Inl e)
  with assms show ?thesis by (simp add: walk_append)
next
  case (Inr y)
  with assms have "walk y [k] = Inr x" by (simp add: walk_append)
  then obtain m where "y = Mapping m" "map_of m k = Some x"
    by (cases y) (auto split: option.splits)
  with Inr show ?thesis by simp
qed

lemma walk_detach:
  assumes "walk r (q @ [k]) = Inr x"
  shows "\<exists>m. walk (detach r (q @ [k])) q = Inr (Mapping (AList.delete k m))"
proof -
  from walk_snoc_Inr[OF assms] obtain m where m: "walk r q = Inr (Mapping m)" by blast
  from walk_modify_at[OF m, of "pop_key k"] show ?thesis
    by (auto simp: detach_def pop_at_def pop_key_def)
qed

lemma prune_loop_is_prune_spec:
  "walk r q = Inr x \<Longrightarrow> q \<noteq> [] \<Longrightarrow>
     prune_loop (detach r q) (rev (parents_of [] (butlast q))) = prune_spec r q"
proof (induction q arbitrary: r x rule: rev_induct)
  case Nil
  then show ?case by simp
next
  case (snoc k q')
  let ?r1 = "detach r (q' @ [k])"
  show ?case
  proof (cases "q' = []")
    case True
    then show ?thesis by (simp add: prune_spec.simps[of r "[k]"])
  next
    case False
    then obtain q'' k' where q': "q' = q'' @ [k']" by (cases q' rule: rev_cases) auto
    from walk_detach[OF snoc.prems(1)] obtain m where
      w1: "walk ?r1 q' = Inr (Mapping (AList.delete k m))" by blast
    have ps: "rev (parents_of [] q') = (q'', k') # rev (parents_of [] q'')"
      using q' by (simp add: parents_of_snoc)
    have ih: "prune_loop (detach ?r1 q') (rev (parents_of [] q'')) = prune_spec ?r1 q'"
      using snoc.IH[OF w1 False] q' by simp
    have d: "pop_at ?r1 q'' k' = detach ?r1 q'" using q' by (simp add: detach_def)
    show ?thesis
    proof (cases "AList.delete k m = []")
      case True
      with w1 q' have "prune_loop ?r1 (rev (parents_of [] q')) = prune_loop (pop_at ?r1 q'' k') (rev (parents_of [] q''))"
        by (simp add: parents_of_snoc)
      also have "\<dots> = prune_spec ?r1 q'" using ih d by simp
      also have "\<dots> = prune_spec r (q' @ [k])"
        using True w1 False by (simp add: prune_spec.simps[of r "q' @ [k]"])
      finally show ?thesis by simp
    next
      case ne: False
      with w1 q' have "prune_loop ?r1 (rev (parents_of [] q')) = ?r1"
        by (simp add: parents_of_snoc)
      also have "\<dots> = prune_spec r (q' @ [k])"
        using ne w1 by (simp add: prune_spec.simps[of r "q' @ [k]"])
      finally show ?thesis by simp
    qed
  qed
qed

lemma prune_tree_after_emptying:
  assumes w: "walk r np = Inr (Bucket b)" and ne: "np \<noteq> []"
  shows "prune_tree (modify_at r np (\<lambda>old. Bucket [])) np = prune_spec r np"
proof -
  let ?rw = "modify_at r np (\<lambda>old. Bucket [])"
  have ww: "walk ?rw np = Inr (Bucket [])" using walk_modify_at[OF w] by simp
  from ne have split: "np = butlast np @ [last np]" by simp
  from walk_snoc_Inr[of ?rw "butlast np" "last np" "Bucket []"] ww split obtain cur where
    cur: "walk ?rw (butlast np) = Inr (Mapping cur)" "map_of cur (last np) = Some (Bucket [])"
    by auto
  from collect_parents_walk[OF cur(1), of "[]"]
  have cp: "collect_parents ?rw [] (butlast np) = Some (parents_of [] (butlast np))" .
  have "prune_tree ?rw np = prune_loop (detach ?rw np) (rev (parents_of [] (butlast np)))"
    using cp cur by (simp add: prune_tree_def detach_def)
  also have "\<dots> = prune_spec ?rw np" using prune_loop_is_prune_spec[OF ww ne] .
  also have "\<dots> = prune_spec r np"
    using detach_after_write[OF ne, of r "\<lambda>old. Bucket []"]
    by (simp add: prune_spec.simps[of ?rw np] prune_spec.simps[of r np])
  finally show ?thesis .
qed

lemma walk_detach_gone:
  assumes "walk r (q @ [k]) = Inr x"
  shows "walk (detach r (q @ [k])) (q @ [k]) = Inl KeyError"
proof -
  from walk_detach[OF assms] obtain m where
    "walk (detach r (q @ [k])) q = Inr (Mapping (AList.delete k m))" by blast
  then show ?thesis by (simp add: walk_append delete_conv')
qed

lemma prune_spec_gone:
  "walk r q = Inr x \<Longrightarrow> q \<noteq> [] \<Longrightarrow> \<exists>e. walk (prune_spec r q) q = Inl e"
proof (induction q arbitrary: r x rule: rev_induct)
  case Nil
  then show ?case by simp
next
  case (snoc k q')
  let ?r1 = "detach r (q' @ [k])"
  show ?case
  proof (cases "q' \<noteq> [] \<and> walk ?r1 q' = Inr (Mapping [])")
    case True
    then have ps: "prune_spec r (q' @ [k]) = prune_spec ?r1 q'"
      by (simp add: prune_spec.simps[of r "q' @ [k]"])
    from True snoc.IH[of ?r1 "Mapping []"] obtain e where "walk (prune_spec ?r1 q') q' = Inl e"
      by blast
    with ps show ?thesis by (simp add: walk_append)
  next
    case False
    then have "prune_spec r (q' @ [k]) = ?r1"
      by (auto simp: prune_spec.simps[of r "q' @ [k]"])
    with walk_detach_gone[OF snoc.prems(1)] show ?thesis by simp
  qed
qed

lemma set_root_write_bucket [simp]: "set_root r (write_bucket addr b s) = set_root r s"
  by (simp add: write_bucket_def set_root_def)

lemma remove_last_item_at:
  assumes n: "normalize_path (sep s) p = Inr np"
    and w: "walk (root s) np = Inr (Bucket [object_name])"
  shows "prune_empty_branch p (write_bucket np (remove1 object_name [object_name]) s)
           = (Inr (), set_root (prune_spec (root s) np) s)"
proof -
  from n have ne: "np \<noteq> []" by (rule normalize_path_nonempty)
  let ?sw = "write_bucket np [] s"
  have "root ?sw = modify_at (root s) np (\<lambda>old. Bucket [])" using ne by (rule root_write_bucket)
  then have "prune_tree (root ?sw) np = prune_spec (root s) np"
    using prune_tree_after_emptying[OF w ne] by simp
  with n show ?thesis by (simp add: prune_empty_branch_def)
qed

text \<open>
  C6. When \<open>remove_object\<close> takes the last item out of a bucket, the index afterwards
  is the one the specification describes: the bucket is detached from its parent, then
  each ancestor mapping left empty is detached in turn, up to the first ancestor that is
  not empty or to the root. The root stays a mapping, and the path of the bucket no
  longer exists.
\<close>

theorem remove_last_item_prunes_branch:
  assumes target: "(old_path = Some p \<and> normalize_path (sep s) p = Inr np) \<or>
                   (old_path = None \<and> find_object s object_name = Some np)"
    and last_item: "walk (root s) np = Inr (Bucket [object_name])"
  shows "remove_object object_name old_path s
           = (Inr True, set_root (prune_spec (root s) np) s) \<and>
         (\<exists>m. prune_spec (root s) np = Mapping m) \<and>
         has_path (set_root (prune_spec (root s) np) s) (PSeq np) = Inr False"
proof -
  have ne: "np \<noteq> []" using last_item by (auto simp: root_def)
  have nq: "normalize_path (sep s) (PSeq np) = Inr np" using ne by (simp add: normalize_path_def)
  let ?sw = "write_bucket np [] s"
  have rw: "root ?sw = modify_at (root s) np (\<lambda>old. Bucket [])" using ne by (rule root_write_bucket)
  have pt: "prune_tree (root ?sw) np = prune_spec (root s) np"
    using prune_tree_after_emptying[OF last_item ne] rw by simp
  obtain m where m: "prune_spec (root s) np = Mapping m"
    using prune_tree_Mapping[of "entries (root ?sw)" np] pt rw modify_at_Mapping[OF ne, of "data s"]
    by (auto simp: root_def)
  have rem: "remove_object object_name old_path s = (Inr True, set_root (prune_spec (root s) np) s)"
  proof (cases old_path)
    case None
    with target have f: "find_object s object_name = Some np" by simp
    from ensure_bucket_existing[OF nq last_item]
    have eb: "ensure_bucket (PSeq np) False s = (Inr (np, [object_name]), s)" .
    from remove_last_item_at[OF nq last_item] None f eb show ?thesis
      by (simp add: remove_object_def remove_from_def)
  next
    case (Some given)
    with target have n: "normalize_path (sep s) given = Inr np" by simp
    from ensure_bucket_existing[OF n last_item]
    have eb: "ensure_bucket given False s = (Inr (np, [object_name]), s)" .
    from remove_last_item_at[OF n last_item] Some eb show ?thesis
      by (simp add: remove_object_def)
  qed
  from prune_spec_gone[OF last_item ne] obtain e where
    "walk (prune_spec (root s) np) np = Inl e" by blast
  with walk_error[OF this] have "walk (prune_spec (root s) np) np = Inl KeyError" by simp
  with m ne have hp: "has_path (set_root (prune_spec (root s) np) s) (PSeq np) = Inr False"
    by (simp add: has_path_def normalize_path_def)
  from rem m hp show ?thesis by blast
qed

text \<open>
  The removal of the test suite, on a smaller index: the bucket \<open>Center\<close> and the mapping
  \<open>Surface\<close> go, and \<open>Guest\<close> stays, since it still has \<open>Drawers\<close>.
\<close>

theorem remove_last_item_prunes_branch_witness:
  "remove_object ''charging_station'' (Some (PStr ''Office/Desks/Guest/Surface/Center''))
     \<lparr>data = [(''Kitchen'', Mapping [(''Drawers'', Mapping [(''Top'', Bucket [''knives''])])]),
              (''Office'', Mapping [(''Desks'', Mapping [(''Guest'', Mapping
                 [(''Surface'', Mapping [(''Center'', Bucket [''charging_station''])]),
                  (''Drawers'', Mapping [])])])])], sep = ''/''\<rparr>
   = (Inr True,
     \<lparr>data = [(''Kitchen'', Mapping [(''Drawers'', Mapping [(''Top'', Bucket [''knives''])])]),
              (''Office'', Mapping [(''Desks'', Mapping [(''Guest'', Mapping
                 [(''Drawers'', Mapping [])])])])], sep = ''/''\<rparr>)"
proof -
  let ?s = "\<lparr>data = [(''Kitchen'', Mapping [(''Drawers'', Mapping [(''Top'', Bucket [''knives''])])]),
              (''Office'', Mapping [(''Desks'', Mapping [(''Guest'', Mapping
                 [(''Surface'', Mapping [(''Center'', Bucket [''charging_station''])]),
                  (''Drawers'', Mapping [])])])])], sep = ''/''\<rparr>"
  let ?np = "[''Office'', ''Desks'', ''Guest'', ''Surface'', ''Center'']"
  have t: "(Some (PStr ''Office/Desks/Guest/Surface/Center'') = Some (PStr ''Office/Desks/Guest/Surface/Center'') \<and>
            normalize_path (sep ?s) (PStr ''Office/Desks/Guest/Surface/Center'') = Inr ?np) \<or>
           (Some (PStr ''Office/Desks/Guest/Surface/Center'') = None \<and>
            find_object ?s ''charging_station'' = Some ?np)"
    by code_simp
  have l: "walk (root ?s) ?np = Inr (Bucket [''charging_station''])" by code_simp
  have p: "set_root (prune_spec (root ?s) ?np) ?s =
     \<lparr>data = [(''Kitchen'', Mapping [(''Drawers'', Mapping [(''Top'', Bucket [''knives''])])]),
              (''Office'', Mapping [(''Desks'', Mapping [(''Guest'', Mapping
                 [(''Drawers'', Mapping [])])])])], sep = ''/''\<rparr>"
    by code_simp
  from remove_last_item_prunes_branch[OF t l] p show ?thesis by simp
qed

section \<open>Properties of the tool handlers\<close>

lemma ensure_from_through_bucket:
  "walk r q = Inr (Bucket b) \<Longrightarrow> ensure_from r (q @ k # rest) c = (Inl TypeError, r)"
proof (induction q arbitrary: r)
  case Nil
  then show ?case by simp
next
  case (Cons a q)
  from Cons.prems obtain m child where m: "r = Mapping m" "map_of m a = Some child"
    "walk child q = Inr (Bucket b)"
    by (cases r) (auto split: option.splits)
  from Cons.IH[OF m(3)] m show ?case
    by (simp add: ensure_from_step update_triv)
qed

lemma ensure_from_at_mapping:
  "walk r np = Inr (Mapping x) \<Longrightarrow> np \<noteq> [] \<Longrightarrow> ensure_from r np c = (Inl TypeError, r)"
proof (induction np arbitrary: r)
  case Nil
  then show ?case by simp
next
  case (Cons a q)
  from Cons.prems obtain m child where m: "r = Mapping m" "map_of m a = Some child"
    "walk child q = Inr (Mapping x)"
    by (cases r) (auto split: option.splits)
  show ?case
  proof (cases "q = []")
    case True
    with m show ?thesis by simp
  next
    case False
    from Cons.IH[OF m(3) False] m False show ?thesis
      by (simp add: ensure_from_step update_triv)
  qed
qed

lemma ensure_from_error_create:
  "ensure_from r p True = (Inl e, r') \<Longrightarrow> p \<noteq> [] \<Longrightarrow> e = TypeError"
proof (induction p arbitrary: r r')
  case Nil
  then show ?case by simp
next
  case (Cons key rest)
  show ?case
  proof (cases r)
    case (Bucket b)
    with Cons.prems show ?thesis by simp
  next
    case (Mapping m)
    show ?thesis
    proof (cases "rest = []")
      case True
      with Cons.prems Mapping show ?thesis
        by (auto split: option.splits node.splits)
    next
      case False
      show ?thesis
      proof (cases "map_of m key")
        case None
        with Cons.prems Mapping False obtain child where
          "ensure_from (Mapping []) rest True = (Inl e, child)"
          by (auto simp: ensure_from_step split: prod.splits)
        from Cons.IH[OF this False] show ?thesis .
      next
        case (Some child0)
        with Cons.prems Mapping False obtain child where
          "ensure_from child0 rest True = (Inl e, child)"
          by (auto simp: ensure_from_step split: prod.splits)
        from Cons.IH[OF this False] show ?thesis .
      qed
    qed
  qed
qed

lemma ensure_from_error:
  "ensure_from r p c = (Inl e, r') \<Longrightarrow> p \<noteq> [] \<Longrightarrow> e = TypeError \<or> e = KeyError"
proof (induction p arbitrary: r r')
  case Nil
  then show ?case by simp
next
  case (Cons key rest)
  show ?case
  proof (cases r)
    case (Bucket b)
    with Cons.prems show ?thesis by simp
  next
    case (Mapping m)
    show ?thesis
    proof (cases "rest = []")
      case True
      with Cons.prems Mapping show ?thesis
        by (auto split: option.splits node.splits if_splits)
    next
      case False
      show ?thesis
      proof (cases "map_of m key")
        case None
        show ?thesis
        proof (cases c)
          case True
          with None Cons.prems Mapping False obtain child where
            "ensure_from (Mapping []) rest c = (Inl e, child)"
            by (auto simp: ensure_from_step split: prod.splits)
          from Cons.IH[OF this False] show ?thesis .
        next
          case nc: False
          with None Cons.prems Mapping False show ?thesis
            by (simp add: ensure_from_step)
        qed
      next
        case (Some child0)
        with Cons.prems Mapping False obtain child where
          "ensure_from child0 rest c = (Inl e, child)"
          by (auto simp: ensure_from_step split: prod.splits)
        from Cons.IH[OF this False] show ?thesis .
      qed
    qed
  qed
qed

lemma ensure_bucket_error:
  assumes "ensure_bucket p c s = (Inl e, s')"
  shows "e = ValueError \<or> e = TypeError \<or> (e = KeyError \<and> \<not> c)"
proof (cases "normalize_path (sep s) p")
  case (Inl err)
  with assms normalize_path_error[OF Inl] show ?thesis by (simp add: ensure_bucket_def)
next
  case (Inr np)
  obtain r0 r' where ef: "ensure_from (root s) np c = (r0, r')"
    by (cases "ensure_from (root s) np c")
  with assms Inr have r0: "r0 = Inl e" by (cases r0) (auto simp: ensure_bucket_def)
  from normalize_path_nonempty[OF Inr] have ne: "np \<noteq> []" .
  show ?thesis
  proof (cases c)
    case True
    with ef r0 ensure_from_error_create[of "root s" np e r'] ne show ?thesis by simp
  next
    case False
    with ef r0 ensure_from_error[of "root s" np c e r'] ne show ?thesis by auto
  qed
qed

lemma add_object_error:
  assumes "add_object p n dup s = (Inl e, s')"
  shows "e = ValueError \<or> e = TypeError"
proof -
  obtain r0 s1 where eb: "ensure_bucket p True s = (r0, s1)"
    by (cases "ensure_bucket p True s")
  with assms have "r0 = Inl e"
    by (cases r0) (auto simp: add_object_def split: if_splits)
  with eb ensure_bucket_error[of p True s e s1] show ?thesis by simp
qed

lemma prune_empty_branch_error:
  "prune_empty_branch p s = (Inl e, s') \<Longrightarrow> e = ValueError"
  by (auto simp: prune_empty_branch_def split: sum.splits dest: normalize_path_error)

lemma remove_object_error:
  assumes wf: "wf_index s" and r: "remove_object n old_path s = (Inl e, s')"
  shows "e = ValueError \<or> e = TypeError"
proof (cases old_path)
  case None
  show ?thesis
  proof (cases "find_object s n")
    case fn: None
    with r None show ?thesis by (simp add: remove_object_def)
  next
    case (Some match)
    from remove_object_first_match[OF wf Some] r None show ?thesis by auto
  qed
next
  case (Some given)
  obtain r0 s1 where eb: "ensure_bucket given False s = (r0, s1)"
    by (cases "ensure_bucket given False s")
  show ?thesis
  proof (cases r0)
    case (Inl err)
    with r Some eb have "err = e" "e \<noteq> KeyError"
      by (cases err; simp add: remove_object_def)+
    with eb Inl ensure_bucket_error[of given False s err s1] show ?thesis by auto
  next
    case (Inr ab)
    obtain addr bucket where ab: "ab = (addr, bucket)" by (cases ab)
    obtain r2 s2 where pe: "prune_empty_branch given (write_bucket addr (remove1 n bucket) s1) = (r2, s2)"
      by (cases "prune_empty_branch given (write_bucket addr (remove1 n bucket) s1)")
    from r Some eb Inr ab pe have "r2 = Inl e"
      by (cases r2) (auto simp: remove_object_def split: if_splits)
    with pe prune_empty_branch_error show ?thesis by blast
  qed
qed

lemma update_step_returns: "\<exists>adj'. update_step adj old_step new_step = Inr adj'"
proof (cases "old_step = new_step \<or> old_step \<notin> keys adj")
  case True
  then show ?thesis by (auto simp: update_step_def)
next
  case False
  then have "old_step \<noteq> new_step" "old_step \<in> keys adj" by auto
  from update_step_result[OF this] show ?thesis by blast
qed

lemma with_graph_returns:
  assumes "\<And>adj. \<exists>adj'. change adj = Inr adj'"
  shows "\<exists>env svc'. with_graph g change svc = (Inr env, svc')"
proof (cases "map_of (graphs svc) g")
  case None
  then show ?thesis by (simp add: with_graph_def)
next
  case (Some graph)
  from assms obtain adj' where "change (adjacency graph) = Inr adj'" by blast
  with Some show ?thesis by (simp add: with_graph_def Let_def)
qed

lemma graph_handlers_return:
  "\<exists>env svc'. tool_list_process_graphs svc = (Inr env, svc')"
  "\<exists>env svc'. tool_create_process_graph n svc = (Inr env, svc')"
  "\<exists>env svc'. tool_delete_process_graph n svc = (Inr env, svc')"
  "\<exists>env svc'. tool_add_process_step g step svc = (Inr env, svc')"
  "\<exists>env svc'. tool_update_process_step g old_step new_step svc = (Inr env, svc')"
  "\<exists>env svc'. tool_add_process_transition g start end svc = (Inr env, svc')"
  "\<exists>env svc'. tool_remove_process_transition g start end svc = (Inr env, svc')"
  "\<exists>env svc'. tool_list_object_locations object_name svc = (Inr env, svc')"
proof -
  show "\<exists>env svc'. tool_list_process_graphs svc = (Inr env, svc')"
    by (simp add: tool_list_process_graphs_def)
  show "\<exists>env svc'. tool_create_process_graph n svc = (Inr env, svc')"
    by (simp add: tool_create_process_graph_def Let_def)
  show "\<exists>env svc'. tool_delete_process_graph n svc = (Inr env, svc')"
    by (cases "map_of (graphs svc) n") (simp_all add: tool_delete_process_graph_def)
  show "\<exists>env svc'. tool_add_process_step g step svc = (Inr env, svc')"
    unfolding tool_add_process_step_def by (rule with_graph_returns) simp
  show "\<exists>env svc'. tool_update_process_step g old_step new_step svc = (Inr env, svc')"
    unfolding tool_update_process_step_def by (rule with_graph_returns) (rule update_step_returns)
  show "\<exists>env svc'. tool_add_process_transition g start end svc = (Inr env, svc')"
    unfolding tool_add_process_transition_def by (rule with_graph_returns) simp
  show "\<exists>env svc'. tool_remove_process_transition g start end svc = (Inr env, svc')"
    unfolding tool_remove_process_transition_def by (rule with_graph_returns) simp
  show "\<exists>env svc'. tool_list_object_locations object_name svc = (Inr env, svc')"
    by (auto simp: tool_list_object_locations_def split: option.splits)
qed

lemma move_object_error:
  assumes wf: "wf_index s" and m: "move_object n new_path old_path dup s = (Inl e, s')"
  shows "e = ValueError \<or> e = TypeError"
proof -
  obtain r0 s1 where r: "remove_object n old_path s = (r0, s1)"
    by (cases "remove_object n old_path s")
  show ?thesis
  proof (cases r0)
    case (Inl err)
    with m r have "err = e" by (simp add: move_object_def)
    with r Inl remove_object_error[OF wf, of n old_path e s1] show ?thesis by simp
  next
    case (Inr removed)
    obtain r1 s2 where a: "add_object new_path n dup s1 = (r1, s2)"
      by (cases "add_object new_path n dup s1")
    with m r Inr have "r1 = Inl e"
      by (cases r1) (auto simp: move_object_def split: if_splits)
    with a add_object_error show ?thesis by blast
  qed
qed

lemma delete_path_error: "delete_path p s = (Inl e, s') \<Longrightarrow> e = ValueError"
  by (auto simp: delete_path_def split: sum.splits prod.splits dest: normalize_path_error)

lemma location_handlers_raise:
  "tool_add_object p n dup svc = (Inl e, svc') \<Longrightarrow> e = ValueError \<or> e = TypeError"
  "wf_index (object_dict svc) \<Longrightarrow> tool_move_object n new_path old_path dup svc = (Inl e, svc')
     \<Longrightarrow> e = ValueError \<or> e = TypeError"
  "tool_delete_path p svc = (Inl e, svc') \<Longrightarrow> e = ValueError \<or> e = TypeError"
proof -
  show "tool_add_object p n dup svc = (Inl e, svc') \<Longrightarrow> e = ValueError \<or> e = TypeError"
    by (auto simp: tool_add_object_def split: prod.splits sum.splits if_splits dest: add_object_error)
  show "wf_index (object_dict svc) \<Longrightarrow> tool_move_object n new_path old_path dup svc = (Inl e, svc')
     \<Longrightarrow> e = ValueError \<or> e = TypeError"
    by (auto simp: tool_move_object_def split: prod.splits sum.splits if_splits dest: move_object_error)
  show "tool_delete_path p svc = (Inl e, svc') \<Longrightarrow> e = ValueError \<or> e = TypeError"
    by (auto simp: tool_delete_path_def split: prod.splits sum.splits if_splits dest: delete_path_error)
qed

lemma call_tool_outcome:
  assumes wf: "wf_index (object_dict svc)"
  shows "call_tool t kw svc = mismatch svc \<or>
         (\<exists>env svc'. call_tool t kw svc = (Inr env, svc')) \<or>
         (t \<in> {AddObject, MoveObject, DeletePath} \<and>
          (\<exists>e svc'. call_tool t kw svc = (Inl e, svc') \<and> (e = ValueError \<or> e = TypeError)))"
proof (cases t)
  case ListProcessGraphs
  then show ?thesis using graph_handlers_return(1)[of svc]
    by (cases kw) (simp_all add: call_tool_def)
next
  case CreateProcessGraph
  then show ?thesis using graph_handlers_return(2)[of _ svc]
    by (cases kw) (simp_all add: call_tool_def)
next
  case DeleteProcessGraph
  then show ?thesis using graph_handlers_return(3)[of _ svc]
    by (cases kw) (simp_all add: call_tool_def)
next
  case AddProcessStep
  then show ?thesis using graph_handlers_return(4)[of _ _ svc]
    by (cases kw) (simp_all add: call_tool_def)
next
  case UpdateProcessStep
  then show ?thesis using graph_handlers_return(5)[of _ _ _ svc]
    by (cases kw) (simp_all add: call_tool_def)
next
  case AddProcessTransition
  then show ?thesis using graph_handlers_return(6)[of _ _ _ svc]
    by (cases kw) (simp_all add: call_tool_def)
next
  case RemoveProcessTransition
  then show ?thesis using graph_handlers_return(7)[of _ _ _ svc]
    by (cases kw) (simp_all add: call_tool_def)
next
  case ListObjectLocations
  then show ?thesis using graph_handlers_return(8)[of _ svc]
    by (cases kw) (simp_all add: call_tool_def)
next
  case AddObject
  show ?thesis
  proof (cases kw)
    case (KwAddObject p n dup)
    obtain r svc' where c: "tool_add_object p n (flag dup) svc = (r, svc')"
      by (cases "tool_add_object p n (flag dup) svc")
    with AddObject KwAddObject location_handlers_raise(1)[of p n "flag dup" svc _ svc']
    show ?thesis by (cases r) (auto simp: call_tool_def)
  qed (simp_all add: call_tool_def AddObject)
next
  case MoveObject
  show ?thesis
  proof (cases kw)
    case (KwMoveObject n new_path old_path dup)
    obtain r svc' where c: "tool_move_object n new_path old_path (flag dup) svc = (r, svc')"
      by (cases "tool_move_object n new_path old_path (flag dup) svc")
    with MoveObject KwMoveObject location_handlers_raise(2)[OF wf, of n new_path old_path "flag dup" _ svc']
    show ?thesis by (cases r) (auto simp: call_tool_def)
  qed (simp_all add: call_tool_def MoveObject)
next
  case DeletePath
  show ?thesis
  proof (cases kw)
    case (KwPath p)
    obtain r svc' where c: "tool_delete_path p svc = (r, svc')"
      by (cases "tool_delete_path p svc")
    with DeletePath KwPath location_handlers_raise(3)[of p svc _ svc']
    show ?thesis by (cases r) (auto simp: call_tool_def)
  qed (simp_all add: call_tool_def DeletePath)
qed

lemma add_object_type_mismatch:
  assumes n: "normalize_path (sep s) p = Inr np"
    and mis: "(\<exists>q k rest b. np = q @ k # rest \<and> walk (root s) q = Inr (Bucket b)) \<or>
              (\<exists>m. walk (root s) np = Inr (Mapping m))"
  shows "add_object p object_name allow_duplicates s = (Inl TypeError, s)"
proof -
  from n have ne: "np \<noteq> []" by (rule normalize_path_nonempty)
  have "ensure_from (root s) np True = (Inl TypeError, root s)"
    using mis ensure_from_through_bucket[of "root s" _ _ _ _ True]
      ensure_from_at_mapping[of "root s" np _ True] ne
    by auto
  with n show ?thesis by (simp add: add_object_def ensure_bucket_def)
qed

lemma execute_tool_call_catches:
  assumes g: "get_tool_callable function_name = Inr t"
  shows "case call_tool t kw svc of
           (Inr env0, svc0) \<Rightarrow> execute_tool_call function_name (Dict kw) svc = (env0, svc0)
         | (Inl e, svc0) \<Rightarrow> \<exists>m. execute_tool_call function_name (Dict kw) svc = (Error m, svc0)"
proof -
  obtain r svc0 where c: "call_tool t kw svc = (r, svc0)" by (cases "call_tool t kw svc")
  show ?thesis
  proof (cases r)
    case (Inl e)
    with g c show ?thesis by (cases e) (simp_all add: execute_tool_call_def)
  next
    case (Inr env0)
    with g c show ?thesis by (simp add: execute_tool_call_def)
  qed
qed

lemma call_tool_unfit: "\<not> fits t kw \<Longrightarrow> call_tool t kw svc = mismatch svc"
  by (cases t; cases kw) (simp_all add: fits_def call_tool_def)

lemma call_tool_fit_returns:
  assumes "fits t kw" and "t \<notin> {AddObject, MoveObject, DeletePath}"
  shows "\<exists>env svc'. call_tool t kw svc = (Inr env, svc')"
proof (cases t)
  case ListProcessGraphs
  with assms(1) show ?thesis using graph_handlers_return(1)[of svc]
    by (cases kw) (simp_all add: call_tool_def fits_def)
next
  case CreateProcessGraph
  with assms(1) show ?thesis using graph_handlers_return(2)[of _ svc]
    by (cases kw) (simp_all add: call_tool_def fits_def)
next
  case DeleteProcessGraph
  with assms(1) show ?thesis using graph_handlers_return(3)[of _ svc]
    by (cases kw) (simp_all add: call_tool_def fits_def)
next
  case AddProcessStep
  with assms(1) show ?thesis using graph_handlers_return(4)[of _ _ svc]
    by (cases kw) (simp_all add: call_tool_def fits_def)
next
  case UpdateProcessStep
  with assms(1) show ?thesis using graph_handlers_return(5)[of _ _ _ svc]
    by (cases kw) (simp_all add: call_tool_def fits_def)
next
  case AddProcessTransition
  with assms(1) show ?thesis using graph_handlers_return(6)[of _ _ _ svc]
    by (cases kw) (simp_all add: call_tool_def fits_def)
next
  case RemoveProcessTransition
  with assms(1) show ?thesis using graph_handlers_return(7)[of _ _ _ svc]
    by (cases kw) (simp_all add: call_tool_def fits_def)
next
  case ListObjectLocations
  with assms(1) show ?thesis using graph_handlers_return(8)[of _ svc]
    by (cases kw) (simp_all add: call_tool_def fits_def)
next
  case AddObject
  with assms(2) show ?thesis by simp
next
  case MoveObject
  with assms(2) show ?thesis by simp
next
  case DeletePath
  with assms(2) show ?thesis by simp
qed


text \<open>
  C1 (amended). A handler that returns, returns an envelope. The graph handlers and
  \<open>list_object_locations\<close> always return. The handlers \<open>add_object\<close>, \<open>move_object\<close>
  and \<open>delete_path\<close> catch nothing: they can raise \<open>TypeError\<close> or \<open>ValueError\<close>, and
  nothing else. A call whose keywords fit the signature runs the handler; one whose
  keywords do not fit raises \<open>TypeError\<close>. \<open>_execute_tool_call\<close> of the orchestrator
  turns every exception into an error envelope, so a tool call always gets an envelope.
  In particular \<open>tool_add_object\<close> raises \<open>TypeError\<close> on a path that runs through a
  bucket or ends at a mapping, and the orchestrator answers that call with an error
  envelope.
\<close>

theorem tool_call_always_answered:
  assumes wf: "wf_index (object_dict svc)"
  shows
    "(\<exists>env svc'. tool_list_process_graphs svc = (Inr env, svc')) \<and>
     (\<forall>n. \<exists>env svc'. tool_create_process_graph n svc = (Inr env, svc')) \<and>
     (\<forall>n. \<exists>env svc'. tool_delete_process_graph n svc = (Inr env, svc')) \<and>
     (\<forall>g step. \<exists>env svc'. tool_add_process_step g step svc = (Inr env, svc')) \<and>
     (\<forall>g old_step new_step. \<exists>env svc'.
        tool_update_process_step g old_step new_step svc = (Inr env, svc')) \<and>
     (\<forall>g start end. \<exists>env svc'. tool_add_process_transition g start end svc = (Inr env, svc')) \<and>
     (\<forall>g start end. \<exists>env svc'. tool_remove_process_transition g start end svc = (Inr env, svc')) \<and>
     (\<forall>object_name. \<exists>env svc'. tool_list_object_locations object_name svc = (Inr env, svc')) \<and>
     (\<forall>p object_name allow_duplicates e svc'.
        tool_add_object p object_name allow_duplicates svc = (Inl e, svc') \<longrightarrow>
        e = ValueError \<or> e = TypeError) \<and>
     (\<forall>object_name new_path old_path allow_duplicates e svc'.
        tool_move_object object_name new_path old_path allow_duplicates svc = (Inl e, svc') \<longrightarrow>
        e = ValueError \<or> e = TypeError) \<and>
     (\<forall>p e svc'. tool_delete_path p svc = (Inl e, svc') \<longrightarrow> e = ValueError) \<and>
     (\<forall>t kw.
        (\<not> fits t kw \<longrightarrow> call_tool t kw svc = (Inl TypeError, svc)) \<and>
        (fits t kw \<and> t \<notin> {AddObject, MoveObject, DeletePath} \<longrightarrow>
           (\<exists>env svc'. call_tool t kw svc = (Inr env, svc'))) \<and>
        (\<forall>e svc'. call_tool t kw svc = (Inl e, svc') \<longrightarrow> e = ValueError \<or> e = TypeError)) \<and>
     (\<forall>function_name t kw. get_tool_callable function_name = Inr t \<longrightarrow>
        (case call_tool t kw svc of
           (Inr env0, svc0) \<Rightarrow> execute_tool_call function_name (Dict kw) svc = (env0, svc0)
         | (Inl e, svc0) \<Rightarrow> \<exists>m. execute_tool_call function_name (Dict kw) svc = (Error m, svc0))) \<and>
     (\<forall>function_name t. get_tool_callable function_name = Inr t \<longrightarrow>
        execute_tool_call function_name NotADict svc
          = (Error (ArgumentsNotObject function_name), svc)) \<and>
     (\<forall>function_name. get_tool_callable function_name = Inl KeyError \<longrightarrow>
        (\<forall>args. execute_tool_call function_name args svc = (Error (NotRegistered function_name), svc))) \<and>
     (\<forall>p np object_name allow_duplicates.
        normalize_path (sep (object_dict svc)) p = Inr np \<and>
        ((\<exists>q k rest b. np = q @ k # rest \<and> walk (root (object_dict svc)) q = Inr (Bucket b)) \<or>
         (\<exists>m. walk (root (object_dict svc)) np = Inr (Mapping m))) \<longrightarrow>
        tool_add_object p object_name allow_duplicates svc = (Inl TypeError, svc) \<and>
        execute_tool_call ''add_object'' (Dict (KwAddObject p object_name (Some allow_duplicates))) svc
          = (Error (InvalidArguments ''add_object'' TypeError), svc))"
proof -
  have h1: "\<exists>env svc'. tool_list_process_graphs svc = (Inr env, svc')"
    by (rule graph_handlers_return)
  have h2: "\<forall>n. \<exists>env svc'. tool_create_process_graph n svc = (Inr env, svc')"
    by (simp add: graph_handlers_return)
  have h3: "\<forall>n. \<exists>env svc'. tool_delete_process_graph n svc = (Inr env, svc')"
    by (simp add: graph_handlers_return)
  have h4: "\<forall>g step. \<exists>env svc'. tool_add_process_step g step svc = (Inr env, svc')"
    by (simp add: graph_handlers_return)
  have h5: "\<forall>g old_step new_step. \<exists>env svc'.
        tool_update_process_step g old_step new_step svc = (Inr env, svc')"
    by (simp add: graph_handlers_return)
  have h6: "\<forall>g start end. \<exists>env svc'. tool_add_process_transition g start end svc = (Inr env, svc')"
    by (simp add: graph_handlers_return)
  have h7: "\<forall>g start end. \<exists>env svc'. tool_remove_process_transition g start end svc = (Inr env, svc')"
    by (simp add: graph_handlers_return)
  have h8: "\<forall>object_name. \<exists>env svc'. tool_list_object_locations object_name svc = (Inr env, svc')"
    by (simp add: graph_handlers_return)
  have l1: "\<forall>p object_name allow_duplicates e svc'.
        tool_add_object p object_name allow_duplicates svc = (Inl e, svc') \<longrightarrow>
        e = ValueError \<or> e = TypeError"
    using location_handlers_raise(1) by blast
  have l2: "\<forall>object_name new_path old_path allow_duplicates e svc'.
        tool_move_object object_name new_path old_path allow_duplicates svc = (Inl e, svc') \<longrightarrow>
        e = ValueError \<or> e = TypeError"
    using location_handlers_raise(2)[OF wf] by blast
  have l3: "\<forall>p e svc'. tool_delete_path p svc = (Inl e, svc') \<longrightarrow> e = ValueError"
    by (auto simp: tool_delete_path_def split: prod.splits sum.splits if_splits
        dest: delete_path_error)
  have c: "\<forall>t kw.
        (\<not> fits t kw \<longrightarrow> call_tool t kw svc = (Inl TypeError, svc)) \<and>
        (fits t kw \<and> t \<notin> {AddObject, MoveObject, DeletePath} \<longrightarrow>
           (\<exists>env svc'. call_tool t kw svc = (Inr env, svc'))) \<and>
        (\<forall>e svc'. call_tool t kw svc = (Inl e, svc') \<longrightarrow> e = ValueError \<or> e = TypeError)"
  proof (intro allI conjI impI)
    fix t kw
    assume "\<not> fits t kw"
    then show "call_tool t kw svc = (Inl TypeError, svc)"
      using call_tool_unfit[of t kw svc] by (simp add: mismatch_def)
  next
    fix t kw
    assume "fits t kw \<and> t \<notin> {AddObject, MoveObject, DeletePath}"
    then show "\<exists>env svc'. call_tool t kw svc = (Inr env, svc')"
      using call_tool_fit_returns by blast
  next
    fix t kw e svc'
    assume "call_tool t kw svc = (Inl e, svc')"
    with call_tool_outcome[OF wf, of t kw] show "e = ValueError \<or> e = TypeError"
      by (auto simp: mismatch_def)
  qed
  have x1: "\<forall>function_name t kw. get_tool_callable function_name = Inr t \<longrightarrow>
        (case call_tool t kw svc of
           (Inr env0, svc0) \<Rightarrow> execute_tool_call function_name (Dict kw) svc = (env0, svc0)
         | (Inl e, svc0) \<Rightarrow> \<exists>m. execute_tool_call function_name (Dict kw) svc = (Error m, svc0))"
    by (intro allI impI) (rule execute_tool_call_catches)
  have x2: "\<forall>function_name t. get_tool_callable function_name = Inr t \<longrightarrow>
        execute_tool_call function_name NotADict svc
          = (Error (ArgumentsNotObject function_name), svc)"
    by (simp add: execute_tool_call_def)
  have x3: "\<forall>function_name. get_tool_callable function_name = Inl KeyError \<longrightarrow>
        (\<forall>args. execute_tool_call function_name args svc = (Error (NotRegistered function_name), svc))"
    by (simp add: execute_tool_call_def)
  have m: "\<forall>p np object_name allow_duplicates.
        normalize_path (sep (object_dict svc)) p = Inr np \<and>
        ((\<exists>q k rest b. np = q @ k # rest \<and> walk (root (object_dict svc)) q = Inr (Bucket b)) \<or>
         (\<exists>m. walk (root (object_dict svc)) np = Inr (Mapping m))) \<longrightarrow>
        tool_add_object p object_name allow_duplicates svc = (Inl TypeError, svc) \<and>
        execute_tool_call ''add_object'' (Dict (KwAddObject p object_name (Some allow_duplicates))) svc
          = (Error (InvalidArguments ''add_object'' TypeError), svc)"
  proof (intro allI impI)
    fix p np object_name allow_duplicates
    assume a: "normalize_path (sep (object_dict svc)) p = Inr np \<and>
        ((\<exists>q k rest b. np = q @ k # rest \<and> walk (root (object_dict svc)) q = Inr (Bucket b)) \<or>
         (\<exists>m. walk (root (object_dict svc)) np = Inr (Mapping m)))"
    then have "add_object p object_name allow_duplicates (object_dict svc) = (Inl TypeError, object_dict svc)"
      using add_object_type_mismatch by blast
    then have t: "tool_add_object p object_name allow_duplicates svc = (Inl TypeError, svc)"
      by (simp add: tool_add_object_def)
    have g: "get_tool_callable ''add_object'' = Inr AddObject"
      by (simp add: get_tool_callable_def function_registry_def)
    have "execute_tool_call ''add_object'' (Dict (KwAddObject p object_name (Some allow_duplicates))) svc
          = (Error (InvalidArguments ''add_object'' TypeError), svc)"
      using g t by (simp add: execute_tool_call_def call_tool_def flag_def)
    with t show "tool_add_object p object_name allow_duplicates svc = (Inl TypeError, svc) \<and>
        execute_tool_call ''add_object'' (Dict (KwAddObject p object_name (Some allow_duplicates))) svc
          = (Error (InvalidArguments ''add_object'' TypeError), svc)"
      by simp
  qed
  from h1 h2 h3 h4 h5 h6 h7 h8 l1 l2 l3 c x1 x2 x3 m show ?thesis
    by (intro conjI)
qed

text \<open>
  An \<open>add_object\<close> call whose path runs through the bucket \<open>Kitchen/Drawers\<close>: the
  orchestrator answers with an error envelope.
\<close>

theorem tool_call_always_answered_witness:
  "execute_tool_call ''add_object''
      (Dict (KwAddObject (PSeq [''Kitchen'', ''Drawers'', ''Top'']) ''spoon'' (Some False)))
      \<lparr>graphs = [], object_dict =
         \<lparr>data = [(''Kitchen'', Mapping [(''Drawers'', Bucket [''knives''])])], sep = ''/''\<rparr>\<rparr>
   = (Error (InvalidArguments ''add_object'' TypeError),
      \<lparr>graphs = [], object_dict =
         \<lparr>data = [(''Kitchen'', Mapping [(''Drawers'', Bucket [''knives''])])], sep = ''/''\<rparr>\<rparr>)"
proof -
  let ?od = "\<lparr>data = [(''Kitchen'', Mapping [(''Drawers'', Bucket [''knives''])])], sep = ''/''\<rparr>"
  let ?svc = "\<lparr>graphs = [], object_dict = ?od\<rparr>"
  let ?np = "[''Kitchen'', ''Drawers'', ''Top'']"
  have w: "wf_index (object_dict ?svc)" by code_simp
  have n: "normalize_path (sep (object_dict ?svc)) (PSeq ?np) = Inr ?np" by code_simp
  have sp: "?np = [''Kitchen'', ''Drawers''] @ ''Top'' # []" by simp
  have wk: "walk (root (object_dict ?svc)) [''Kitchen'', ''Drawers''] = Inr (Bucket [''knives''])"
    by code_simp
  from sp wk have ex: "\<exists>q k rest b. ?np = q @ k # rest \<and> walk (root (object_dict ?svc)) q = Inr (Bucket b)"
    by blast
  from tool_call_always_answered[OF w] have
    "\<forall>p np object_name allow_duplicates.
        normalize_path (sep (object_dict ?svc)) p = Inr np \<and>
        ((\<exists>q k rest b. np = q @ k # rest \<and> walk (root (object_dict ?svc)) q = Inr (Bucket b)) \<or>
         (\<exists>m. walk (root (object_dict ?svc)) np = Inr (Mapping m))) \<longrightarrow>
        tool_add_object p object_name allow_duplicates ?svc = (Inl TypeError, ?svc) \<and>
        execute_tool_call ''add_object'' (Dict (KwAddObject p object_name (Some allow_duplicates))) ?svc
          = (Error (InvalidArguments ''add_object'' TypeError), ?svc)"
    by (elim conjE)
  with n ex show ?thesis by blast
qed

text \<open>
  C1, as stated, fails: \<open>tool_add_object\<close> raises \<open>TypeError\<close> when the path runs
  through a bucket (\<open>Kitchen/Drawers\<close> is a list) and when it ends at a mapping
  (\<open>Kitchen\<close> is a dictionary). The handler has no \<open>try\<close>.
\<close>

theorem tool_add_object_raises_counterexample:
  "tool_add_object (PSeq [''Kitchen'', ''Drawers'', ''Top'']) ''spoon'' False
      \<lparr>graphs = [], object_dict =
         \<lparr>data = [(''Kitchen'', Mapping [(''Drawers'', Bucket [''knives''])])], sep = ''/''\<rparr>\<rparr>
   = (Inl TypeError,
      \<lparr>graphs = [], object_dict =
         \<lparr>data = [(''Kitchen'', Mapping [(''Drawers'', Bucket [''knives''])])], sep = ''/''\<rparr>\<rparr>) \<and>
   tool_add_object (PSeq [''Kitchen'']) ''spoon'' False
      \<lparr>graphs = [], object_dict =
         \<lparr>data = [(''Kitchen'', Mapping [(''Drawers'', Bucket [''knives''])])], sep = ''/''\<rparr>\<rparr>
   = (Inl TypeError,
      \<lparr>graphs = [], object_dict =
         \<lparr>data = [(''Kitchen'', Mapping [(''Drawers'', Bucket [''knives''])])], sep = ''/''\<rparr>\<rparr>)"
  by code_simp

section \<open>Properties of moving an object\<close>

lemma remove_object_raise_unchanged:
  assumes r: "remove_object object_name old_path s = (Inl e, s1)"
  shows "s1 = s"
proof -
  have pruned: "\<exists>s2. prune_empty_branch p (write_bucket addr b s) = (Inr (), s2)"
    if "ensure_bucket p False s = (Inr (addr, bucket), s)" for p addr bucket b
  proof -
    from ensure_bucket_Inr[OF that] have "normalize_path (sep s) p = Inr addr" by simp
    then show ?thesis by (simp add: prune_empty_branch_def)
  qed
  show ?thesis
  proof (cases old_path)
    case None
    show ?thesis
    proof (cases "find_object s object_name")
      case fn: None
      with r None show ?thesis by (simp add: remove_object_def)
    next
      case (Some match)
      obtain r0 s0 where eb: "ensure_bucket (PSeq match) False s = (r0, s0)"
        by (cases "ensure_bucket (PSeq match) False s")
      from ensure_bucket_no_create[OF eb] have s0: "s0 = s" .
      show ?thesis
      proof (cases r0)
        case (Inl err)
        with r None Some eb s0 show ?thesis by (simp add: remove_object_def)
      next
        case (Inr ab)
        obtain addr bucket where ab: "ab = (addr, bucket)" by (cases ab)
        show ?thesis
        proof (cases "object_name \<in> set bucket")
          case True
          from pruned[of "PSeq match" addr bucket "remove1 object_name bucket"] eb s0 Inr ab
          obtain s2 where "prune_empty_branch (PSeq match)
              (write_bucket addr (remove1 object_name bucket) s) = (Inr (), s2)" by auto
          with r None Some eb s0 Inr ab True show ?thesis
            by (simp add: remove_object_def remove_from_def)
        next
          case False
          with r None Some eb s0 Inr ab show ?thesis
            by (simp add: remove_object_def remove_from_def)
        qed
      qed
    qed
  next
    case (Some given)
    obtain r0 s0 where eb: "ensure_bucket given False s = (r0, s0)"
      by (cases "ensure_bucket given False s")
    from ensure_bucket_no_create[OF eb] have s0: "s0 = s" .
    show ?thesis
    proof (cases r0)
      case (Inl err)
      with r Some eb s0 show ?thesis by (cases err) (simp_all add: remove_object_def)
    next
      case (Inr ab)
      obtain addr bucket where ab: "ab = (addr, bucket)" by (cases ab)
      show ?thesis
      proof (cases "object_name \<in> set bucket")
        case True
        from pruned[of given addr bucket "remove1 object_name bucket"] eb s0 Inr ab
        obtain s2 where "prune_empty_branch given
            (write_bucket addr (remove1 object_name bucket) s) = (Inr (), s2)" by auto
        with r Some eb s0 Inr ab True show ?thesis by (simp add: remove_object_def)
      next
        case False
        with r Some eb s0 Inr ab show ?thesis by (simp add: remove_object_def)
      qed
    qed
  qed
qed

lemma ensure_from_missing:
  "walk r np = Inl e \<Longrightarrow>
   (\<forall>q k rest b. np = q @ k # rest \<longrightarrow> walk r q \<noteq> Inr (Bucket b)) \<Longrightarrow>
   ensure_from r np False = (Inl KeyError, r)"
proof (induction np arbitrary: r)
  case Nil
  then show ?case by simp
next
  case (Cons key rest)
  show ?case
  proof (cases r)
    case (Bucket b)
    with Cons.prems(2)[rule_format, of "[]" key rest b] show ?thesis by simp
  next
    case (Mapping m)
    show ?thesis
    proof (cases "map_of m key")
      case None
      with Mapping show ?thesis by (cases "rest = []") (simp_all add: ensure_from_step)
    next
      case (Some child)
      with Cons.prems(1) Mapping have w: "walk child rest = Inl e" by simp
      then have ne: "rest \<noteq> []" by auto
      have "\<forall>q k rest' b. rest = q @ k # rest' \<longrightarrow> walk child q \<noteq> Inr (Bucket b)"
      proof (intro allI impI)
        fix q k rest' b
        assume "rest = q @ k # rest'"
        then have "key # rest = (key # q) @ k # rest'" by simp
        from Cons.prems(2)[rule_format, OF this, of b] Mapping Some
        show "walk child q \<noteq> Inr (Bucket b)" by simp
      qed
      from Cons.IH[OF w this] Mapping Some ne show ?thesis
        by (simp add: ensure_from_step update_triv)
    qed
  qed
qed

lemma remove_object_type_mismatch:
  assumes n: "normalize_path (sep s) p = Inr np"
    and mis: "(\<exists>q k rest b. np = q @ k # rest \<and> walk (root s) q = Inr (Bucket b)) \<or>
              (\<exists>m. walk (root s) np = Inr (Mapping m))"
  shows "remove_object object_name (Some p) s = (Inl TypeError, s)"
proof -
  from n have ne: "np \<noteq> []" by (rule normalize_path_nonempty)
  have "ensure_from (root s) np False = (Inl TypeError, root s)"
    using mis ensure_from_through_bucket[of "root s" _ _ _ _ False]
      ensure_from_at_mapping[of "root s" np _ False] ne
    by auto
  with n show ?thesis by (simp add: remove_object_def ensure_bucket_def)
qed

lemma remove_object_missing_path:
  assumes n: "normalize_path (sep s) p = Inr np"
    and w: "walk (root s) np = Inl e"
    and nb: "\<forall>q k rest b. np = q @ k # rest \<longrightarrow> walk (root s) q \<noteq> Inr (Bucket b)"
  shows "remove_object object_name (Some p) s = (Inr False, s)"
  using n ensure_from_missing[OF w nb]
  by (simp add: remove_object_def ensure_bucket_def)

text \<open>
  C7 (amended). \<open>move_object\<close> is \<open>remove_object\<close> followed by \<open>add_object\<close>, and there
  is no partial move: when the removal returns \<open>False\<close>, \<open>move_object\<close> returns \<open>False\<close>,
  when the removal raises, \<open>move_object\<close> raises the same exception, and in both cases
  the index is the one it started from. The removal returns \<open>False\<close> when the name is
  nowhere in the index (no old path given), when the bucket at the given old path does
  not hold the name, and when the old path does not exist. It raises \<open>TypeError\<close> when
  the old path runs through a bucket or ends at a mapping.
\<close>

theorem move_object_no_partial_move:
  "(\<forall>s1. remove_object object_name old_path s = (Inr True, s1) \<longrightarrow>
      move_object object_name new_path old_path allow_duplicates s =
        (case add_object new_path object_name allow_duplicates s1 of
           (Inl e, s2) \<Rightarrow> (Inl e, s2)
         | (Inr added, s2) \<Rightarrow> (Inr True, s2))) \<and>
   (\<forall>s1. remove_object object_name old_path s = (Inr False, s1) \<longrightarrow>
      s1 = s \<and> move_object object_name new_path old_path allow_duplicates s = (Inr False, s)) \<and>
   (\<forall>e s1. remove_object object_name old_path s = (Inl e, s1) \<longrightarrow>
      s1 = s \<and> move_object object_name new_path old_path allow_duplicates s = (Inl e, s)) \<and>
   (find_object s object_name = None \<longrightarrow>
      remove_object object_name None s = (Inr False, s)) \<and>
   (\<forall>p np b. normalize_path (sep s) p = Inr np \<and> walk (root s) np = Inr (Bucket b) \<and>
      object_name \<notin> set b \<longrightarrow> remove_object object_name (Some p) s = (Inr False, s)) \<and>
   (\<forall>p np e. normalize_path (sep s) p = Inr np \<and> walk (root s) np = Inl e \<and>
      (\<forall>q k rest b. np = q @ k # rest \<longrightarrow> walk (root s) q \<noteq> Inr (Bucket b)) \<longrightarrow>
      remove_object object_name (Some p) s = (Inr False, s)) \<and>
   (\<forall>p np. normalize_path (sep s) p = Inr np \<and>
      ((\<exists>q k rest b. np = q @ k # rest \<and> walk (root s) q = Inr (Bucket b)) \<or>
       (\<exists>m. walk (root s) np = Inr (Mapping m))) \<longrightarrow>
      remove_object object_name (Some p) s = (Inl TypeError, s) \<and>
      move_object object_name new_path (Some p) allow_duplicates s = (Inl TypeError, s))"
proof (intro conjI allI impI)
  fix s1 assume "remove_object object_name old_path s = (Inr True, s1)"
  then show "move_object object_name new_path old_path allow_duplicates s =
        (case add_object new_path object_name allow_duplicates s1 of
           (Inl e, s2) \<Rightarrow> (Inl e, s2)
         | (Inr added, s2) \<Rightarrow> (Inr True, s2))"
    by (simp add: move_object_def)
next
  fix s1 assume a: "remove_object object_name old_path s = (Inr False, s1)"
  then show "s1 = s" by (rule remove_object_False_unchanged)
  with a show "move_object object_name new_path old_path allow_duplicates s = (Inr False, s)"
    by (simp add: move_object_def)
next
  fix e s1 assume a: "remove_object object_name old_path s = (Inl e, s1)"
  then show "s1 = s" by (rule remove_object_raise_unchanged)
  with a show "move_object object_name new_path old_path allow_duplicates s = (Inl e, s)"
    by (simp add: move_object_def)
next
  assume "find_object s object_name = None"
  then show "remove_object object_name None s = (Inr False, s)"
    by (simp add: remove_object_def)
next
  fix p np b
  assume "normalize_path (sep s) p = Inr np \<and> walk (root s) np = Inr (Bucket b) \<and>
      object_name \<notin> set b"
  then show "remove_object object_name (Some p) s = (Inr False, s)"
    by (simp add: remove_object_def ensure_bucket_existing)
next
  fix p np e
  assume "normalize_path (sep s) p = Inr np \<and> walk (root s) np = Inl e \<and>
      (\<forall>q k rest b. np = q @ k # rest \<longrightarrow> walk (root s) q \<noteq> Inr (Bucket b))"
  then show "remove_object object_name (Some p) s = (Inr False, s)"
    using remove_object_missing_path by blast
next
  fix p np
  assume a: "normalize_path (sep s) p = Inr np \<and>
      ((\<exists>q k rest b. np = q @ k # rest \<and> walk (root s) q = Inr (Bucket b)) \<or>
       (\<exists>m. walk (root s) np = Inr (Mapping m)))"
  then show r: "remove_object object_name (Some p) s = (Inl TypeError, s)"
    using remove_object_type_mismatch by blast
  then show "move_object object_name new_path (Some p) allow_duplicates s = (Inl TypeError, s)"
    by (simp add: move_object_def)
qed

text \<open>
  A move of a name that is not in the index: nothing changes. A move from an old path
  that runs through the bucket \<open>A/B\<close>: it raises, and nothing changes.
\<close>

theorem move_object_no_partial_move_witness:
  "move_object ''y'' (PSeq [''B'']) None False \<lparr>data = [(''A'', Bucket [''x''])], sep = ''/''\<rparr>
     = (Inr False, \<lparr>data = [(''A'', Bucket [''x''])], sep = ''/''\<rparr>) \<and>
   move_object ''x'' (PSeq [''C'']) (Some (PSeq [''A'', ''B'', ''D''])) False
       \<lparr>data = [(''A'', Mapping [(''B'', Bucket [''y''])])], sep = ''/''\<rparr>
     = (Inl TypeError, \<lparr>data = [(''A'', Mapping [(''B'', Bucket [''y''])])], sep = ''/''\<rparr>)"
proof -
  let ?s = "\<lparr>data = [(''A'', Bucket [''x''])], sep = ''/''\<rparr>"
  let ?t = "\<lparr>data = [(''A'', Mapping [(''B'', Bucket [''y''])])], sep = ''/''\<rparr>"
  have f: "find_object ?s ''y'' = None" by code_simp
  note t1 = move_object_no_partial_move[of "''y''" None ?s "PSeq [''B'']" False]
  from t1 have c4: "find_object ?s ''y'' = None \<longrightarrow> remove_object ''y'' None ?s = (Inr False, ?s)"
    by (elim conjE)
  from c4 f have r: "remove_object ''y'' None ?s = (Inr False, ?s)" by (rule mp)
  from t1 have c2: "\<forall>s1. remove_object ''y'' None ?s = (Inr False, s1) \<longrightarrow>
      s1 = ?s \<and> move_object ''y'' (PSeq [''B'']) None False ?s = (Inr False, ?s)"
    by (elim conjE)
  from c2[rule_format, OF r] have m1: "move_object ''y'' (PSeq [''B'']) None False ?s = (Inr False, ?s)"
    by (rule conjunct2)
  have n: "normalize_path (sep ?t) (PSeq [''A'', ''B'', ''D'']) = Inr [''A'', ''B'', ''D'']" by code_simp
  have sp: "[''A'', ''B'', ''D''] = [''A'', ''B''] @ ''D'' # []" by simp
  have wk: "walk (root ?t) [''A'', ''B''] = Inr (Bucket [''y''])" by code_simp
  from sp wk have ex: "\<exists>q k rest b. [''A'', ''B'', ''D''] = q @ k # rest \<and> walk (root ?t) q = Inr (Bucket b)"
    by (intro exI conjI)
  from move_object_no_partial_move[of "''x''" None ?t "PSeq [''C'']" False] have c7:
    "\<forall>p np. normalize_path (sep ?t) p = Inr np \<and>
      ((\<exists>q k rest b. np = q @ k # rest \<and> walk (root ?t) q = Inr (Bucket b)) \<or>
       (\<exists>m. walk (root ?t) np = Inr (Mapping m))) \<longrightarrow>
      remove_object ''x'' (Some p) ?t = (Inl TypeError, ?t) \<and>
      move_object ''x'' (PSeq [''C'']) (Some p) False ?t = (Inl TypeError, ?t)"
    by (elim conjE)
  from c7[rule_format, OF conjI[OF n disjI1[OF ex]]]
  have m2: "move_object ''x'' (PSeq [''C'']) (Some (PSeq [''A'', ''B'', ''D''])) False ?t
      = (Inl TypeError, ?t)" by (rule conjunct2)
  from m1 m2 show ?thesis by (rule conjI)
qed

text \<open>
  C7, as stated, fails: the name is absent from the given old path, which runs through
  the bucket \<open>A/B\<close> or is the mapping \<open>A\<close>, and \<open>move_object\<close> raises \<open>TypeError\<close>; it does
  not return \<open>False\<close>. The index is unchanged.
\<close>

theorem move_object_raises_counterexample:
  "find_object \<lparr>data = [(''A'', Mapping [(''B'', Bucket [''y''])])], sep = ''/''\<rparr> ''x'' = None \<and>
   move_object ''x'' (PSeq [''C'']) (Some (PSeq [''A'', ''B'', ''D''])) False
       \<lparr>data = [(''A'', Mapping [(''B'', Bucket [''y''])])], sep = ''/''\<rparr>
     = (Inl TypeError, \<lparr>data = [(''A'', Mapping [(''B'', Bucket [''y''])])], sep = ''/''\<rparr>) \<and>
   move_object ''x'' (PSeq [''C'']) (Some (PSeq [''A''])) False
       \<lparr>data = [(''A'', Mapping [(''B'', Bucket [''y''])])], sep = ''/''\<rparr>
     = (Inl TypeError, \<lparr>data = [(''A'', Mapping [(''B'', Bucket [''y''])])], sep = ''/''\<rparr>)"
  by code_simp

lemma iter_path_extends:
  "(a, q) \<in> set (iter_objects r pre) \<Longrightarrow> \<exists>p. q = pre @ p"
proof (induction r pre arbitrary: q rule: iter_objects.induct)
  case (1 b p)
  then show ?case by auto
next
  case (2 m p)
  from "2.prems" obtain key child where
    kc: "(key, child) \<in> set m" and i: "(a, q) \<in> set (iter_objects child (p @ [key]))"
    by auto
  from "2.IH"[OF kc refl i] obtain p' where "q = (p @ [key]) @ p'" by blast
  then have "q = p @ (key # p')" by simp
  then show ?case by blast
qed

lemma filter_other_keys:
  assumes "k \<notin> keys m"
  shows "filter (\<lambda>(a, q). q = pre @ k # rest) (iter_objects (Mapping m) pre) = []"
proof -
  have "q \<noteq> pre @ k # rest" if "(a, q) \<in> set (iter_objects (Mapping m) pre)" for a q
  proof -
    from that obtain key child where
      kc: "(key, child) \<in> set m" and i: "(a, q) \<in> set (iter_objects child (pre @ [key]))"
      by auto
    from iter_path_extends[OF i] obtain p' where "q = pre @ key # p'" by auto
    moreover from kc assms have "key \<noteq> k" by (force simp: keys_def)
    ultimately show ?thesis by simp
  qed
  then show ?thesis by (auto simp: filter_empty_conv simp del: iter_objects.simps(2))
qed

lemma iter_block_of_path:
  "wf_node r \<Longrightarrow> walk r p = Inr (Bucket d) \<Longrightarrow>
     filter (\<lambda>(a, q). q = pre @ p) (iter_objects r pre) = map (\<lambda>obj. (obj, pre @ p)) d"
proof (induction p arbitrary: r pre)
  case Nil
  then show ?case by (simp add: filter_id_conv)
next
  case (Cons k rest)
  from Cons.prems(2) obtain m c where m: "r = Mapping m" and mo: "map_of m k = Some c"
    and w: "walk c rest = Inr (Bucket d)"
    by (cases r) (auto split: option.splits)
  from Cons.prems(1) m mo have wfc: "wf_node c" by (simp add: wf_node_child del: wf_node.simps(2))
  from map_of_Some_split[OF mo] obtain m1 m2 where
    sp: "m = m1 @ (k, c) # m2" and k1: "k \<notin> keys m1" by blast
  from Cons.prems(1) m sp have k2: "k \<notin> keys m2" by (auto simp: keys_def)
  have it: "iter_objects r pre =
      iter_objects (Mapping m1) pre @ iter_objects c (pre @ [k]) @ iter_objects (Mapping m2) pre"
    using m sp by simp
  have "filter (\<lambda>(a, q). q = pre @ k # rest) (iter_objects c (pre @ [k]))
      = map (\<lambda>obj. (obj, pre @ k # rest)) d"
    using Cons.IH[OF wfc w, of "pre @ [k]"] by simp
  with filter_other_keys[OF k1, of pre rest] filter_other_keys[OF k2, of pre rest] it
  show ?case by simp
qed

lemma walk_in_iter:
  assumes w: "walk r p = Inr (Bucket d)" and n: "n \<in> set d"
  shows "(n, pre @ p) \<in> set (iter_objects r pre)"
proof (cases "p = []")
  case True
  with w n show ?thesis by auto
next
  case False
  from ensure_from_existing[OF w False, of False]
  have "ensure_from r p False = (Inr d, r)" .
  from ensure_from_iter[OF this, of pre] obtain xs ys where
    "iter_objects r pre = xs @ map (\<lambda>obj. (obj, pre @ p)) d @ ys" by blast
  with n show ?thesis by auto
qed

lemma prune_loop_wf: "wf_node r \<Longrightarrow> wf_node (prune_loop r ps)"
proof (induction ps arbitrary: r)
  case Nil
  then show ?case by simp
next
  case (Cons ak ps)
  obtain addr key where ak: "ak = (addr, key)" by (cases ak)
  show ?case
  proof (cases "walk r (addr @ [key])")
    case (Inl e)
    with ak Cons.prems show ?thesis by simp
  next
    case (Inr child)
    from Cons.IH[OF wf_node_pop_at[OF Cons.prems], of addr key] ak Inr Cons.prems
    show ?thesis by (cases "node_empty child") simp_all
  qed
qed

lemma prune_tree_wf:
  assumes "wf_node r"
  shows "wf_node (prune_tree r np)"
proof -
  have "prune_tree r np = r \<or>
      (\<exists>ps. prune_tree r np = prune_loop r ps) \<or>
      (\<exists>ps. prune_tree r np = prune_loop (pop_at r (butlast np) (last np)) ps)"
    by (simp add: prune_tree_def Let_def split: option.splits sum.splits node.splits list.splits)
      blast
  with assms prune_loop_wf[OF assms] prune_loop_wf[OF wf_node_pop_at[OF assms]]
  show ?thesis by auto
qed

lemma remove_object_effect:
  assumes wf: "wf_index s"
    and target: "(\<exists>p. old_path = Some p \<and> normalize_path (sep s) p = Inr op) \<or>
                 (old_path = None \<and> find_object s object_name = Some op)"
    and w: "walk (root s) op = Inr (Bucket b)"
    and inb: "object_name \<in> set b"
  shows "\<exists>xs ys s1. iter_object_paths s = xs @ map (\<lambda>obj. (obj, op)) b @ ys \<and>
     remove_object object_name old_path s = (Inr True, s1) \<and> sep s1 = sep s \<and> wf_index s1 \<and>
     iter_object_paths s1 = xs @ map (\<lambda>obj. (obj, op)) (remove1 object_name b) @ ys"
proof -
  have ne: "op \<noteq> []" using w by (auto simp: root_def)
  have nq: "normalize_path (sep s) (PSeq op) = Inr op" using ne by (simp add: normalize_path_def)
  from ensure_from_existing[OF w ne, of False]
  have ef: "ensure_from (root s) op False = (Inr b, root s)" .
  from ensure_from_iter[OF ef, of "[]"] obtain xs ys where
    i: "iter_objects (root s) [] = xs @ map (\<lambda>obj. (obj, op)) b @ ys"
      "\<forall>f. iter_objects (modify_at (root s) op f) [] = xs @ iter_objects (f (Bucket b)) op @ ys"
    by auto
  let ?sw = "write_bucket op (remove1 object_name b) s"
  have rw: "root ?sw = modify_at (root s) op (\<lambda>old. Bucket (remove1 object_name b))"
    using ne by (rule root_write_bucket)
  have wfw: "wf_node (root ?sw)" using wf_write_bucket[OF wf ne] by (simp add: wf_index_def)
  let ?s1 = "set_root (prune_tree (root ?sw) op) s"
  obtain m' where m': "prune_tree (root ?sw) op = Mapping m'"
    using prune_tree_Mapping[of "entries (root ?sw)" op] rw modify_at_Mapping[OF ne, of "data s"]
    by (auto simp: root_def)
  have r1: "root ?s1 = prune_tree (root ?sw) op" using m' by simp
  have pe: "prune_empty_branch q ?sw = (Inr (), ?s1)" if "normalize_path (sep s) q = Inr op" for q
    using that by (simp add: prune_empty_branch_def)
  have it: "iter_object_paths ?s1 = xs @ map (\<lambda>obj. (obj, op)) (remove1 object_name b) @ ys"
    using r1 prune_tree_iter[OF wfw, of op "[]"] rw i(2)
    by (simp add: iter_object_paths_def)
  have wf1: "wf_index ?s1" using r1 prune_tree_wf[OF wfw, of op] by (simp add: wf_index_def)
  have rem: "remove_object object_name old_path s = (Inr True, ?s1)"
  proof (cases old_path)
    case None
    with target have f: "find_object s object_name = Some op" by simp
    from ensure_bucket_existing[OF nq w] have "ensure_bucket (PSeq op) False s = (Inr (op, b), s)" .
    with None f inb pe[OF nq] show ?thesis
      by (simp add: remove_object_def remove_from_def)
  next
    case (Some given)
    with target have n: "normalize_path (sep s) given = Inr op" by simp
    from ensure_bucket_existing[OF n w] have "ensure_bucket given False s = (Inr (op, b), s)" .
    with Some inb pe[OF n] show ?thesis
      by (simp add: remove_object_def)
  qed
  from i(1) rem it wf1 show ?thesis
    by (auto simp: iter_object_paths_def)
qed

lemma filter_path_other_bucket:
  "np \<noteq> op \<Longrightarrow> filter (\<lambda>(a, q). q = np) (map (\<lambda>obj. (obj, op)) b) = []"
  by (induction b) auto

lemma filter_path_same_bucket:
  "filter (\<lambda>(a, q). q = op) (map (\<lambda>obj. (obj, op)) b) = map (\<lambda>obj. (obj, op)) b"
  by (induction b) auto

lemma map_pair_inj: "map (\<lambda>obj. (obj, p)) d = map (\<lambda>obj. (obj, p)) d' \<Longrightarrow> d = d'"
proof -
  assume "map (\<lambda>obj. (obj, p)) d = map (\<lambda>obj. (obj, p)) d'"
  then have "map fst (map (\<lambda>obj. (obj, p)) d) = map fst (map (\<lambda>obj. (obj, p)) d')" by simp
  then show ?thesis by (simp add: comp_def)
qed

lemma move_object_declined_effect:
  assumes wf: "wf_index s"
    and target: "(\<exists>p. old_path = Some p \<and> normalize_path (sep s) p = Inr op) \<or>
                 (old_path = None \<and> find_object s object_name = Some op)"
    and w: "walk (root s) op = Inr (Bucket b)"
    and inb: "object_name \<in> set b"
    and np: "normalize_path (sep s) new_path = Inr np"
    and dest: "if np = op then object_name \<in> set (remove1 object_name b)
               else (\<exists>d. walk (root s) np = Inr (Bucket d) \<and> object_name \<in> set d)"
  shows "\<exists>s' xs ys. move_object object_name new_path old_path False s = (Inr True, s') \<and>
     sep s' = sep s \<and>
     iter_object_paths s = xs @ map (\<lambda>obj. (obj, op)) b @ ys \<and>
     iter_object_paths s' = xs @ map (\<lambda>obj. (obj, op)) (remove1 object_name b) @ ys \<and>
     (np \<noteq> op \<longrightarrow> walk (root s') np = walk (root s) np) \<and>
     (np = op \<longrightarrow> walk (root s') np = Inr (Bucket (remove1 object_name b)))"
proof -
  from remove_object_effect[OF wf target w inb] obtain xs ys s1 where
    i0: "iter_object_paths s = xs @ map (\<lambda>obj. (obj, op)) b @ ys" and
    rm: "remove_object object_name old_path s = (Inr True, s1)" and
    sp: "sep s1 = sep s" and wf1: "wf_index s1" and
    i1: "iter_object_paths s1 = xs @ map (\<lambda>obj. (obj, op)) (remove1 object_name b) @ ys"
    by blast
  let ?F = "\<lambda>q l. filter (\<lambda>(a, q'). q' = q) l"
  have b0: "?F op (iter_object_paths s) = map (\<lambda>obj. (obj, op)) b"
    using iter_block_of_path[OF wf[unfolded wf_index_def] w, of "[]"]
    by (simp add: iter_object_paths_def)
  have mem1: "(object_name, np) \<in> set (iter_object_paths s1)"
  proof (cases "np = op")
    case True
    with dest i1 show ?thesis by auto
  next
    case False
    with dest obtain d where d: "walk (root s) np = Inr (Bucket d)" "object_name \<in> set d" by auto
    from walk_in_iter[OF d, of "[]"] i0 False i1 show ?thesis
      by (auto simp: iter_object_paths_def)
  qed
  from iter_objects_walk[OF wf1[unfolded wf_index_def] mem1[unfolded iter_object_paths_def]]
  obtain d' where
    w1: "walk (root s1) np = Inr (Bucket d')" and in1: "object_name \<in> set d'" by auto
  have b1: "?F np (iter_object_paths s1) = map (\<lambda>obj. (obj, np)) d'"
    using iter_block_of_path[OF wf1[unfolded wf_index_def] w1, of "[]"]
    by (simp add: iter_object_paths_def)
  from np sp have np1: "normalize_path (sep s1) new_path = Inr np" by simp
  have "add_object new_path object_name False s1 = (Inr False, s1)"
    using in1 ensure_bucket_existing[OF np1 w1] by (simp add: add_object_def)
  with rm have mv: "move_object object_name new_path old_path False s = (Inr True, s1)"
    by (simp add: move_object_def)
  have other: "walk (root s1) np = walk (root s) np" if ne: "np \<noteq> op"
  proof -
    from dest ne obtain d where d: "walk (root s) np = Inr (Bucket d)" by auto
    have "?F np (iter_object_paths s) = map (\<lambda>obj. (obj, np)) d"
      using iter_block_of_path[OF wf[unfolded wf_index_def] d, of "[]"]
      by (simp add: iter_object_paths_def)
    moreover have "?F np (iter_object_paths s) = ?F np (iter_object_paths s1)"
      using i0 i1 ne by (simp add: filter_path_other_bucket)
    ultimately have "map (\<lambda>obj. (obj, np)) d = map (\<lambda>obj. (obj, np)) d'" using b1 by simp
    then have "d = d'" by (rule map_pair_inj)
    with d w1 show ?thesis by simp
  qed
  have same: "walk (root s1) np = Inr (Bucket (remove1 object_name b))" if eq: "np = op"
  proof -
    from b0 i0 have "?F op xs @ map (\<lambda>obj. (obj, op)) b @ ?F op ys = map (\<lambda>obj. (obj, op)) b"
      by (simp add: filter_path_same_bucket)
    then have "length (?F op xs) + length b + length (?F op ys) = length b"
      by (metis length_append length_map add.assoc)
    then have z: "?F op xs = []" "?F op ys = []" by simp_all
    from b1 i1 eq z have "map (\<lambda>obj. (obj, op)) (remove1 object_name b) = map (\<lambda>obj. (obj, op)) d'"
      by (simp add: filter_path_same_bucket)
    then have "remove1 object_name b = d'" by (rule map_pair_inj)
    with w1 show ?thesis by simp
  qed
  from mv sp i0 i1 other same show ?thesis by blast
qed


text \<open>
  C9 (amended). Whenever \<open>move_object\<close> returns a boolean, it is the boolean the removal
  returned. When the removal succeeds and \<open>add_object\<close> declines (no duplicates allowed
  and the name already in the destination bucket), \<open>move_object\<close> returns \<open>True\<close> and
  \<open>add_object\<close> has changed nothing. The net effect is then that one occurrence of the
  name has left the old bucket: in the traversal of the index the block of the old
  bucket has lost it and everything before and after that block is as it was; the
  destination bucket has its former contents when it is another bucket, and is the old
  bucket less that occurrence when the two are the same.
\<close>

theorem move_object_result_is_removal:
  "(\<forall>b s'. move_object object_name new_path old_path allow_duplicates s = (Inr b, s') \<longrightarrow>
      (\<exists>s1. remove_object object_name old_path s = (Inr b, s1))) \<and>
   (\<forall>s1 s2. remove_object object_name old_path s = (Inr True, s1) \<and>
       add_object new_path object_name False s1 = (Inr False, s2) \<longrightarrow>
      s2 = s1 \<and> move_object object_name new_path old_path False s = (Inr True, s1)) \<and>
   (\<forall>s1 np b. normalize_path (sep s1) new_path = Inr np \<and>
       walk (root s1) np = Inr (Bucket b) \<and> object_name \<in> set b \<longrightarrow>
      add_object new_path object_name False s1 = (Inr False, s1)) \<and>
   (\<forall>op b np. wf_index s \<and>
       ((\<exists>p. old_path = Some p \<and> normalize_path (sep s) p = Inr op) \<or>
        (old_path = None \<and> find_object s object_name = Some op)) \<and>
       walk (root s) op = Inr (Bucket b) \<and> object_name \<in> set b \<and>
       normalize_path (sep s) new_path = Inr np \<and>
       (if np = op then object_name \<in> set (remove1 object_name b)
        else (\<exists>d. walk (root s) np = Inr (Bucket d) \<and> object_name \<in> set d)) \<longrightarrow>
      (\<exists>s' xs ys. move_object object_name new_path old_path False s = (Inr True, s') \<and>
         sep s' = sep s \<and>
         iter_object_paths s = xs @ map (\<lambda>obj. (obj, op)) b @ ys \<and>
         iter_object_paths s' = xs @ map (\<lambda>obj. (obj, op)) (remove1 object_name b) @ ys \<and>
         (np \<noteq> op \<longrightarrow> walk (root s') np = walk (root s) np) \<and>
         (np = op \<longrightarrow> walk (root s') np = Inr (Bucket (remove1 object_name b)))))"
proof (intro conjI allI impI)
  fix b s'
  assume a: "move_object object_name new_path old_path allow_duplicates s = (Inr b, s')"
  obtain r s1 where r: "remove_object object_name old_path s = (r, s1)"
    by (cases "remove_object object_name old_path s")
  with a have "r = Inr b"
    by (cases r) (auto simp: move_object_def split: if_splits prod.splits sum.splits)
  with r show "\<exists>s1. remove_object object_name old_path s = (Inr b, s1)" by blast
next
  fix s1 s2
  assume a: "remove_object object_name old_path s = (Inr True, s1) \<and>
       add_object new_path object_name False s1 = (Inr False, s2)"
  then show "s2 = s1" using add_object_declined_unchanged by blast
  with a show "move_object object_name new_path old_path False s = (Inr True, s1)"
    by (simp add: move_object_def)
next
  fix s1 np b
  assume "normalize_path (sep s1) new_path = Inr np \<and>
       walk (root s1) np = Inr (Bucket b) \<and> object_name \<in> set b"
  then show "add_object new_path object_name False s1 = (Inr False, s1)"
    by (simp add: add_object_def ensure_bucket_existing)
next
  fix op b np
  assume a: "wf_index s \<and>
       ((\<exists>p. old_path = Some p \<and> normalize_path (sep s) p = Inr op) \<or>
        (old_path = None \<and> find_object s object_name = Some op)) \<and>
       walk (root s) op = Inr (Bucket b) \<and> object_name \<in> set b \<and>
       normalize_path (sep s) new_path = Inr np \<and>
       (if np = op then object_name \<in> set (remove1 object_name b)
        else (\<exists>d. walk (root s) np = Inr (Bucket d) \<and> object_name \<in> set d))"
  then have h: "wf_index s"
    "(\<exists>p. old_path = Some p \<and> normalize_path (sep s) p = Inr op) \<or>
        (old_path = None \<and> find_object s object_name = Some op)"
    "walk (root s) op = Inr (Bucket b)" "object_name \<in> set b"
    "normalize_path (sep s) new_path = Inr np"
    "if np = op then object_name \<in> set (remove1 object_name b)
        else (\<exists>d. walk (root s) np = Inr (Bucket d) \<and> object_name \<in> set d)"
    by simp_all
  show "\<exists>s' xs ys. move_object object_name new_path old_path False s = (Inr True, s') \<and>
         sep s' = sep s \<and>
         iter_object_paths s = xs @ map (\<lambda>obj. (obj, op)) b @ ys \<and>
         iter_object_paths s' = xs @ map (\<lambda>obj. (obj, op)) (remove1 object_name b) @ ys \<and>
         (np \<noteq> op \<longrightarrow> walk (root s') np = walk (root s) np) \<and>
         (np = op \<longrightarrow> walk (root s') np = Inr (Bucket (remove1 object_name b)))"
    using h by (rule move_object_declined_effect)
qed

text \<open>
  A move from \<open>A\<close> to \<open>B\<close> of a name that \<open>B\<close> already holds: the move returns \<open>True\<close> and
  \<open>B\<close> is as before.
\<close>

theorem move_object_result_is_removal_witness:
  "fst (move_object ''x'' (PSeq [''B'']) (Some (PSeq [''A''])) False
      \<lparr>data = [(''A'', Bucket [''x'']), (''B'', Bucket [''x''])], sep = ''/''\<rparr>) = Inr True \<and>
   walk (root (snd (move_object ''x'' (PSeq [''B'']) (Some (PSeq [''A''])) False
      \<lparr>data = [(''A'', Bucket [''x'']), (''B'', Bucket [''x''])], sep = ''/''\<rparr>))) [''B'']
     = Inr (Bucket [''x''])"
proof -
  let ?s = "\<lparr>data = [(''A'', Bucket [''x'']), (''B'', Bucket [''x''])], sep = ''/''\<rparr>"
  have w: "wf_index ?s" by code_simp
  have n: "normalize_path (sep ?s) (PSeq [''A'']) = Inr [''A'']" by code_simp
  then have t: "(\<exists>p. Some (PSeq [''A'']) = Some p \<and> normalize_path (sep ?s) p = Inr [''A'']) \<or>
        (Some (PSeq [''A'']) = None \<and> find_object ?s ''x'' = Some [''A''])"
    by blast
  have wa: "walk (root ?s) [''A''] = Inr (Bucket [''x''])" by code_simp
  have ia: "''x'' \<in> set [''x'']" by simp
  have nb: "normalize_path (sep ?s) (PSeq [''B'']) = Inr [''B'']" by code_simp
  have wb: "walk (root ?s) [''B''] = Inr (Bucket [''x''])" by code_simp
  then have d: "if [''B''] = [''A''] then ''x'' \<in> set (remove1 ''x'' [''x''])
        else (\<exists>d. walk (root ?s) [''B''] = Inr (Bucket d) \<and> ''x'' \<in> set d)"
    by simp
  from move_object_result_is_removal[of "''x''" "PSeq [''B'']" "Some (PSeq [''A''])" False ?s]
  have c4: "\<forall>op b np. wf_index ?s \<and>
       ((\<exists>p. Some (PSeq [''A'']) = Some p \<and> normalize_path (sep ?s) p = Inr op) \<or>
        (Some (PSeq [''A'']) = None \<and> find_object ?s ''x'' = Some op)) \<and>
       walk (root ?s) op = Inr (Bucket b) \<and> ''x'' \<in> set b \<and>
       normalize_path (sep ?s) (PSeq [''B'']) = Inr np \<and>
       (if np = op then ''x'' \<in> set (remove1 ''x'' b)
        else (\<exists>d. walk (root ?s) np = Inr (Bucket d) \<and> ''x'' \<in> set d)) \<longrightarrow>
      (\<exists>s' xs ys. move_object ''x'' (PSeq [''B'']) (Some (PSeq [''A''])) False ?s = (Inr True, s') \<and>
         sep s' = sep ?s \<and>
         iter_object_paths ?s = xs @ map (\<lambda>obj. (obj, op)) b @ ys \<and>
         iter_object_paths s' = xs @ map (\<lambda>obj. (obj, op)) (remove1 ''x'' b) @ ys \<and>
         (np \<noteq> op \<longrightarrow> walk (root s') np = walk (root ?s) np) \<and>
         (np = op \<longrightarrow> walk (root s') np = Inr (Bucket (remove1 ''x'' b))))"
    by (elim conjE)
  from c4[rule_format, of "[''A'']" "[''x'']" "[''B'']"] w t wa ia nb d
  obtain s' where mv: "move_object ''x'' (PSeq [''B'']) (Some (PSeq [''A''])) False ?s = (Inr True, s')"
    and keep: "[''B''] \<noteq> [''A''] \<longrightarrow> walk (root s') [''B''] = walk (root ?s) [''B'']"
    by blast
  from keep wb have "walk (root s') [''B''] = Inr (Bucket [''x''])" by simp
  with mv show ?thesis by simp
qed

text \<open>
  C9, as stated, fails when the destination is the old bucket: the bucket \<open>A\<close> holds the
  name twice, the removal takes one occurrence out, \<open>add_object\<close> declines since the
  other is still there, and the destination bucket \<open>A\<close> has changed.
\<close>

theorem move_object_same_bucket_counterexample:
  "remove_object ''x'' None \<lparr>data = [(''A'', Bucket [''x'', ''x''])], sep = ''/''\<rparr>
     = (Inr True, \<lparr>data = [(''A'', Bucket [''x''])], sep = ''/''\<rparr>) \<and>
   add_object (PSeq [''A'']) ''x'' False \<lparr>data = [(''A'', Bucket [''x''])], sep = ''/''\<rparr>
     = (Inr False, \<lparr>data = [(''A'', Bucket [''x''])], sep = ''/''\<rparr>) \<and>
   move_object ''x'' (PSeq [''A'']) None False \<lparr>data = [(''A'', Bucket [''x'', ''x''])], sep = ''/''\<rparr>
     = (Inr True, \<lparr>data = [(''A'', Bucket [''x''])], sep = ''/''\<rparr>) \<and>
   get_path \<lparr>data = [(''A'', Bucket [''x'', ''x''])], sep = ''/''\<rparr> (PSeq [''A'']) None
     = Inr (Some (Bucket [''x'', ''x''])) \<and>
   get_path \<lparr>data = [(''A'', Bucket [''x''])], sep = ''/''\<rparr> (PSeq [''A'']) None
     = Inr (Some (Bucket [''x'']))"
  by code_simp

end
